theory Spec2Isabelle
  imports Complex_Main "HOL-Library.Word"
begin

section \<open>Characters and strings\<close>

text \<open>
  A JavaScript string is modelled as a \<^typ>\<open>string\<close>, and the model covers the
  strings of ASCII characters (code units below 128). On these, \<open>toLowerCase\<close> and
  \<open>toUpperCase\<close>, which the source applies to one character at a time, change the
  letters and nothing else, and give one character for one character. Strings with
  other characters are outside the model: JavaScript's case mapping changes some of
  them too (a lowercase e-acute, or a sharp s, which becomes \<open>SS\<close>), while the two
  functions below leave every character that is not an ASCII letter as it is.
\<close>

definition toLowerCase :: "char \<Rightarrow> char" where
  "toLowerCase c =
     (let n = (of_char c :: nat) in if 65 \<le> n \<and> n \<le> 90 then char_of (n + 32) else c)"

definition toUpperCase :: "char \<Rightarrow> char" where
  "toUpperCase c =
     (let n = (of_char c :: nat) in if 97 \<le> n \<and> n \<le> 122 then char_of (n - 32) else c)"

section \<open>Garbling rules\<close>

text \<open>The object literal \<open>PHONETIC_MAP\<close> (lines 40--66), entry by entry, in source order.\<close>

definition PHONETIC_TABLE :: "(char \<times> char) list" where
  "PHONETIC_TABLE =
     [(CHR ''a'', CHR ''e''), (CHR ''b'', CHR ''p''), (CHR ''c'', CHR ''k''),
      (CHR ''d'', CHR ''t''), (CHR ''e'', CHR ''i''), (CHR ''f'', CHR ''v''),
      (CHR ''g'', CHR ''j''), (CHR ''i'', CHR ''y''), (CHR ''j'', CHR ''g''),
      (CHR ''k'', CHR ''c''), (CHR ''l'', CHR ''r''), (CHR ''m'', CHR ''n''),
      (CHR ''n'', CHR ''m''), (CHR ''o'', CHR ''u''), (CHR ''p'', CHR ''b''),
      (CHR ''q'', CHR ''k''), (CHR ''r'', CHR ''l''), (CHR ''s'', CHR ''z''),
      (CHR ''t'', CHR ''d''), (CHR ''u'', CHR ''o''), (CHR ''v'', CHR ''w''),
      (CHR ''w'', CHR ''v''), (CHR ''x'', CHR ''z''), (CHR ''y'', CHR ''i''),
      (CHR ''z'', CHR ''s'')]"

text \<open>Property lookup \<open>PHONETIC_MAP[lower]\<close>: \<open>None\<close> stands for \<open>undefined\<close>.\<close>

definition PHONETIC_MAP :: "char \<rightharpoonup> char" where
  "PHONETIC_MAP = map_of PHONETIC_TABLE"

text \<open>
  A JavaScript \<open>Set\<close> of strings keeps its elements in insertion order and ignores the
  insertion of an element it already holds; \<open>Array.from\<close> lists them in that order.
\<close>

definition set_add :: "'a list \<Rightarrow> 'a \<Rightarrow> 'a list" where
  "set_add results x = (if x \<in> set results then results else results @ [x])"

text \<open>
  The callback of \<open>letters.forEach((ch, idx) => ...)\<close> in \<open>garbledVariants\<close>
  (lines 78--88), with the set \<open>results\<close> threaded through.
\<close>

definition garble_step :: "string \<Rightarrow> string list \<Rightarrow> char \<times> nat \<Rightarrow> string list" where
  "garble_step word results p =
     (case p of (ch, idx) \<Rightarrow>
        let lower = toLowerCase ch in
        case PHONETIC_MAP lower of
          None \<Rightarrow> results
        | Some mapped \<Rightarrow>
            let rep = (if ch = toUpperCase ch then toUpperCase mapped else mapped) in
            if rep = ch then results
            else
              let candidate = list_update word idx rep in
              if candidate \<noteq> word then set_add results candidate else results)"

definition garbledVariants :: "string \<Rightarrow> string list" where
  "garbledVariants word = foldl (garble_step word) [] (zip word [0..<length word])"

section \<open>Crypto RNG\<close>

text \<open>
  \<open>crypto.getRandomValues\<close> is the only effect of \<open>getSecureRandomIndex\<close>. The values it
  delivers are a parameter of the model: \<open>src n\<close> is the 32-bit value written into
  \<open>buf[0]\<close> by the \<open>n\<close>-th call (counted from 0) since the start, and the state passed
  through every function is the number of calls made so far.

  A call either throws, or returns a value together with the new state, or never
  returns; the last is the \<open>None\<close> of the option type. The numbers of the source (array
  lengths, loop counters, the bound \<open>max\<close>) are integers, modelled as \<^typ>\<open>int\<close>; on
  them, \<open>Math.floor(0xffffffff / max)\<close> is integer division.
\<close>

type_synonym source = "nat \<Rightarrow> 32 word"

datatype error = RangeError

datatype 'a result = Throw error | Return 'a nat

text \<open>The \<open>do ... while (value >= limit)\<close> loop of lines 122--126.\<close>

partial_function (option) draw_loop :: "source \<Rightarrow> int \<Rightarrow> nat \<Rightarrow> (32 word \<times> nat) option" where
  "draw_loop src limit pos =
     (let value = src pos in
      if limit \<le> uint value then draw_loop src limit (Suc pos) else Some (value, Suc pos))"

declare draw_loop.simps [code]

text \<open>Lines 118--128; the parameter \<open>max\<close> of the source is written \<open>mx\<close>.\<close>

definition getSecureRandomIndex :: "source \<Rightarrow> int \<Rightarrow> nat \<Rightarrow> int result option" where
  "getSecureRandomIndex src mx pos =
     (if mx \<le> 0 then Some (Throw RangeError)
      else
        let limit = (0xffffffff div mx) * mx in
        case draw_loop src limit pos of
          None \<Rightarrow> None
        | Some (value, pos') \<Rightarrow> Some (Return (uint value mod mx) pos'))"


section \<open>Numbers\<close>

text \<open>
  A JavaScript Number is a double. The Numbers of the source that hold integers (array
  lengths, counts, loop counters) are modelled by the integer they hold. An arithmetic
  operation on them gives the exact result rounded to the nearest double; that
  rounding is written out in \<open>binomialBig\<close>, whose parameters are not bounded by the
  function itself. Everywhere else the model computes on the integers themselves,
  which is what the doubles do while the values stay within \<open>2^53\<close> in size: array
  lengths and indices are below \<open>2^32\<close>, and so is \<open>count\<close> where the counting code runs.
\<close>

text \<open>The number of bits of a positive integer.\<close>

function bit_length :: "int \<Rightarrow> nat" where
  "bit_length n = (if n \<le> 0 then 0 else Suc (bit_length (n div 2)))"
  by pat_completeness auto
termination
  by (relation "measure nat") auto

declare bit_length.simps [simp del]

text \<open>
  The Number value for a non-negative integer \<open>n\<close>: \<open>n\<close> rounded to 53 significant
  bits, to the nearest such value and to the even significand on a tie. With
  \<open>53 + e\<close> bits in \<open>n\<close>, the significand is \<open>q\<close> and \<open>r\<close> is what is rounded away.
\<close>

definition nearest_double :: "int \<Rightarrow> int" where
  "nearest_double n =
     (let e = bit_length n - 53 in
      if e = 0 then n
      else
        let q = n div 2 ^ e;
            r = n mod 2 ^ e;
            half = 2 ^ (e - 1)
        in (if r > half \<or> (r = half \<and> odd q) then q + 1 else q) * 2 ^ e)"

text \<open>
  The double nearest to an integer of either sign, for the results of \<open>+\<close> and \<open>-\<close> on
  integer-valued Numbers (results below \<open>2^1024\<close> in size, so that no infinity arises).
\<close>

definition double_round :: "int \<Rightarrow> int" where
  "double_round x = sgn x * nearest_double \<bar>x\<bar>"

section \<open>Counting the possible passphrases\<close>

text \<open>
  A \<open>BigInt\<close> is an \<^typ>\<open>int\<close>. Its division \<open>/\<close> truncates towards zero (and throws on a
  zero divisor, which \<open>binomialBig\<close> never passes: the divisor is the loop counter
  \<open>i \<ge> 1\<close>).
\<close>

definition bigint_div :: "int \<Rightarrow> int \<Rightarrow> int" where
  "bigint_div a b = sgn a * sgn b * (\<bar>a\<bar> div \<bar>b\<bar>)"

text \<open>
  The \<open>for (let i = 1; i <= k; i++)\<close> loop of \<open>binomialBig\<close> (lines 349--351). The
  parameters \<open>n\<close> and \<open>k\<close> and the counter \<open>i\<close> are Numbers: \<open>n - k + i\<close> is
  \<open>(n - k) + i\<close> with both results rounded, before \<open>BigInt\<close> is applied, and \<open>i++\<close> is
  rounded too. With \<open>0 \<le> k \<le> n\<close> no result exceeds \<open>n + 1\<close>. A counter that rounding
  keeps from growing makes the loop run forever: the result \<open>None\<close>.
\<close>

partial_function (option) binomialBig_loop :: "int \<Rightarrow> int \<Rightarrow> int \<Rightarrow> int \<Rightarrow> int option" where
  "binomialBig_loop n k i res =
     (if i \<le> k then
        binomialBig_loop n k (double_round (i + 1))
          (bigint_div (res * double_round (double_round (n - k) + i)) i)
      else Some res)"

declare binomialBig_loop.simps [code]

text \<open>\<open>binomialBig\<close>, lines 345--353.\<close>

definition binomialBig :: "int \<Rightarrow> int \<Rightarrow> int option" where
  "binomialBig n k =
     (if k < 0 \<or> k > n then Some 0
      else
        let k = min k (double_round (n - k)) in
        binomialBig_loop n k 1 1)"

text \<open>
  The same loop and function on exact integers, with no rounding. This is what
  \<open>binomialBig\<close> computes for every \<open>n\<close> from 0 to \<open>2^53\<close> (lemma \<open>binomialBig_exact_eq\<close>
  below), where all the Numbers involved are integers that a double holds exactly.
\<close>

function binomialBig_exact_loop :: "int \<Rightarrow> int \<Rightarrow> int \<Rightarrow> int \<Rightarrow> int" where
  "binomialBig_exact_loop n k i res =
     (if i \<le> k then binomialBig_exact_loop n k (i + 1) (bigint_div (res * (n - k + i)) i)
      else res)"
  by pat_completeness auto
termination
  by (relation "measure (\<lambda>(n, k, i, res). nat (k + 1 - i))") auto

declare binomialBig_exact_loop.simps [simp del]

definition binomialBig_exact :: "int \<Rightarrow> int \<Rightarrow> int" where
  "binomialBig_exact n k =
     (if k < 0 \<or> k > n then 0
      else
        let k = min k (n - k) in
        binomialBig_exact_loop n k 1 1)"

text \<open>
  The \<open>for (let k = 0; k <= maxG; k++)\<close> loop of lines 360--364, \<open>possible\<close> being the
  running sum. The exponents \<open>BigInt(k)\<close> and \<open>BigInt(count - k)\<close> are never negative
  there: \<open>0 \<le> k \<le> maxG \<le> count\<close>, since the code is reached only after the check
  \<open>count < 1\<close> of line 298 has let \<open>count\<close> through. It is reached only after the
  check of line 306 as well: \<open>count\<close> is at most \<open>wordsForGen.length\<close>, the length of an
  array, which is below \<open>2^32\<close>. For such a \<open>count\<close> the call \<open>binomialBig(count, k)\<close>
  returns \<open>binomialBig_exact count k\<close>, which stands for it here.
\<close>

function possible_loop :: "int \<Rightarrow> int \<Rightarrow> int \<Rightarrow> int \<Rightarrow> int \<Rightarrow> int \<Rightarrow> int" where
  "possible_loop Bn Vn count maxG k possible =
     (if k \<le> maxG then
        let comb = binomialBig_exact count k;
            trm = comb * (Vn ^ nat k) * (Bn ^ nat (count - k))
        in possible_loop Bn Vn count maxG (k + 1) (possible + trm)
      else possible)"
  by pat_completeness auto
termination
  by (relation "measure (\<lambda>(Bn, Vn, count, maxG, k, possible). nat (maxG + 1 - k))") auto

declare possible_loop.simps [simp del]

text \<open>
  Lines 355--372 of \<open>generateAndDisplay\<close>: the number of possible passphrases, from
  \<open>activeWords.length\<close>, \<open>wordsForGen.length\<close>, \<open>count\<close>, \<open>garbleMax\<close> and the value
  \<open>includeSetting\<close> of the select element (\<open>none\<close>, \<open>end\<close> or \<open>anywhere\<close>).
\<close>

definition countPossible :: "nat \<Rightarrow> nat \<Rightarrow> int \<Rightarrow> int \<Rightarrow> string \<Rightarrow> int" where
  "countPossible activeLength genLength count garbleMax includeSetting =
     (let includeNumber = (includeSetting \<noteq> ''none'');
          Bn = int activeLength;
          En = int genLength;
          Vn = (if En \<ge> Bn then En - Bn else 0);
          maxG = max 0 (min garbleMax count);
          possible = possible_loop Bn Vn count maxG 0 0
      in
        if includeNumber then
          let possible = possible * 10 in
          if includeSetting = ''anywhere'' then possible * (count + 1) else possible
        else possible)"


section \<open>Strength in bits\<close>

text \<open>
  Line 379, \<open>Math.log2(Number(possible))\<close>. A Number is a double: a finite value
  (given by the real number it stands for), an infinity or NaN.
\<close>

datatype number = Finite real | PosInfinity | NegInfinity | NaN

text \<open>
  \<open>Number(n)\<close> for a BigInt \<open>n\<close>: the rounded value, replaced by an infinity when it
  reaches \<open>2^1024\<close>.
\<close>

definition Number :: "int \<Rightarrow> number" where
  "Number n =
     (let m = nearest_double \<bar>n\<bar> in
      if m \<ge> 2 ^ 1024 then (if n < 0 then NegInfinity else PosInfinity)
      else Finite (of_int (sgn n * m)))"

text \<open>
  \<open>Math.log2\<close>: its special cases as the language fixes them; for any other finite
  argument the result is an approximation that the implementation chooses, the
  parameter \<open>lg\<close>.
\<close>

definition Math_log2 :: "(real \<Rightarrow> real) \<Rightarrow> number \<Rightarrow> number" where
  "Math_log2 lg x =
     (case x of
        NaN \<Rightarrow> NaN
      | NegInfinity \<Rightarrow> NaN
      | PosInfinity \<Rightarrow> PosInfinity
      | Finite r \<Rightarrow>
          if r < 0 then NaN
          else if r = 0 then NegInfinity
          else if r = 1 then Finite 0
          else Finite (lg r))"

definition strength :: "(real \<Rightarrow> real) \<Rightarrow> int \<Rightarrow> number" where
  "strength lg possible = Math_log2 lg (Number possible)"


section \<open>Word list and passphrase generation\<close>

text \<open>
  What the functions read from the page: the state variable \<open>activeWords\<close> and the
  values of the form controls, as \<open>generateAndDisplay\<close> reads them.
  \<open>wordCount_value\<close> is \<open>parseInt(wordCountInput.value, 10)\<close>, \<open>None\<close> standing for
  \<open>NaN\<close>; \<open>garbleMax_value\<close> is
  \<open>garbleMaxInput ? parseInt(garbleMaxInput.value, 10) || 0 : 0\<close>.
\<close>

record page =
  activeWords :: "string list"
  wordCount_value :: "int option"
  separator_value :: string
  includeNumber_value :: string
  garbleMax_value :: int

text \<open>\<open>getEffectiveWordList\<close>, lines 98--110.\<close>

definition getEffectiveWordList :: "page \<Rightarrow> string list" where
  "getEffectiveWordList pg =
     (let list = activeWords pg;
          garbleMax = garbleMax_value pg
      in
        if garbleMax > 0 then
          let set0 = foldl set_add [] list in
          foldl (\<lambda>set1 w. foldl set_add set1 (garbledVariants w)) set0 list
        else list)"

text \<open>
  Sequencing of two calls: a call that throws or never returns ends the whole
  computation; otherwise the next call runs on the value and the new state.
\<close>

definition bind :: "'a result option \<Rightarrow> ('a \<Rightarrow> nat \<Rightarrow> 'b result option) \<Rightarrow> 'b result option" where
  "bind m f = (case m of None \<Rightarrow> None | Some (Throw e) \<Rightarrow> Some (Throw e) | Some (Return v pos) \<Rightarrow> f v pos)"

text \<open>
  The two picking loops of \<open>generatePassphrase\<close> (lines 142--145 and 147--150):
  \<open>for (let i = ...; i < n; i++) picked.push(words[getSecureRandomIndex(words.length)])\<close>.
  The index is within the list whenever the sampler returns, so \<open>words[...]\<close> is never
  \<open>undefined\<close>.
\<close>

function pick_loop ::
  "source \<Rightarrow> string list \<Rightarrow> int \<Rightarrow> int \<Rightarrow> string list \<Rightarrow> nat \<Rightarrow> string list result option" where
  "pick_loop src words i n picked pos =
     (if i < n then
        (case getSecureRandomIndex src (int (length words)) pos of
           None \<Rightarrow> None
         | Some (Throw e) \<Rightarrow> Some (Throw e)
         | Some (Return idx pos') \<Rightarrow>
             pick_loop src words (i + 1) n (picked @ [words ! nat idx]) pos')
      else Some (Return picked pos))"
  by pat_completeness auto
termination
  by (relation "measure (\<lambda>(src, words, i, n, picked, pos). nat (n - i))") auto

declare pick_loop.simps [simp del]

text \<open>\<open>[picked[i], picked[j]] = [picked[j], picked[i]]\<close>.\<close>

definition swap :: "'a list \<Rightarrow> nat \<Rightarrow> nat \<Rightarrow> 'a list" where
  "swap xs i j = (xs[i := xs ! j])[j := xs ! i]"

text \<open>The shuffle, \<open>for (let i = picked.length - 1; i > 0; i--)\<close> (lines 152--155).\<close>

function shuffle_loop :: "source \<Rightarrow> int \<Rightarrow> string list \<Rightarrow> nat \<Rightarrow> string list result option" where
  "shuffle_loop src i picked pos =
     (if i > 0 then
        (case getSecureRandomIndex src (i + 1) pos of
           None \<Rightarrow> None
         | Some (Throw e) \<Rightarrow> Some (Throw e)
         | Some (Return j pos') \<Rightarrow> shuffle_loop src (i - 1) (swap picked (nat i) (nat j)) pos')
      else Some (Return picked pos))"
  by pat_completeness auto
termination
  by (relation "measure (\<lambda>(src, i, picked, pos). nat i)") auto

declare shuffle_loop.simps [simp del]

text \<open>\<open>w.length > 0 ? w[0].toUpperCase() + w.slice(1) : w\<close> (line 158).\<close>

definition capitalize :: "string \<Rightarrow> string" where
  "capitalize w = (case w of [] \<Rightarrow> w | c # cs \<Rightarrow> toUpperCase c # cs)"

text \<open>\<open>Array.prototype.join\<close> with a separator.\<close>

fun str_join :: "string list \<Rightarrow> string \<Rightarrow> string" where
  "str_join [] separator = []"
| "str_join [w] separator = w"
| "str_join (w # v # ws) separator = w @ separator @ str_join (v # ws) separator"

text \<open>\<open>generatePassphrase\<close>, lines 138--160.\<close>

definition generatePassphrase ::
  "page \<Rightarrow> source \<Rightarrow> string list \<Rightarrow> int \<Rightarrow> string \<Rightarrow> int \<Rightarrow> nat \<Rightarrow> string result option" where
  "generatePassphrase pg src baseWords count separator garbleMax pos =
     bind (if garbleMax > 0 then
             (let garbledWords = getEffectiveWordList pg in
              pick_loop src garbledWords 0 garbleMax [] pos)
           else Some (Return [] pos))
       (\<lambda>picked pos.
     bind (pick_loop src baseWords garbleMax count picked pos)
       (\<lambda>picked pos.
     bind (shuffle_loop src (int (length picked) - 1) picked pos)
       (\<lambda>picked pos.
          let finalWords = map capitalize picked in
          Some (Return (str_join finalWords separator) pos))))"

text \<open>
  \<open>String.prototype.split\<close> with a string separator: with the empty separator, the
  code units one by one; otherwise the pieces between the occurrences of the separator,
  found from left to right (\<open>cur\<close> is the piece being read).
\<close>

fun split_from :: "string \<Rightarrow> string \<Rightarrow> string \<Rightarrow> string list" where
  "split_from separator cur [] = [cur]"
| "split_from separator cur (c # cs) =
     (if take (length separator) (c # cs) = separator
      then cur # split_from separator [] (drop (length separator - 1) cs)
      else split_from separator (cur @ [c]) cs)"

definition str_split :: "string \<Rightarrow> string \<Rightarrow> string list" where
  "str_split s separator =
     (if separator = [] then map (\<lambda>c. [c]) s else split_from separator [] s)"

text \<open>\<open>parts.splice(pos, 0, x)\<close>, for \<open>0 \<le> pos \<le> parts.length\<close>.\<close>

definition splice_insert :: "'a list \<Rightarrow> nat \<Rightarrow> 'a \<Rightarrow> 'a list" where
  "splice_insert parts pos x = take pos parts @ [x] @ drop pos parts"

text \<open>The decimal string of a digit \<open>0..9\<close> (what the sampler returns for the bound 10).\<close>

definition digit_toString :: "int \<Rightarrow> string" where
  "digit_toString digit = [char_of (48 + nat digit)]"

text \<open>Lines 315--328 of \<open>generateAndDisplay\<close>: the digit.\<close>

definition includeDigit :: "source \<Rightarrow> string \<Rightarrow> string \<Rightarrow> string \<Rightarrow> nat \<Rightarrow> string result option" where
  "includeDigit src passphrase separator includeSetting pos =
     (let includeNumber = (includeSetting \<noteq> ''none'') in
      if includeNumber then
        bind (getSecureRandomIndex src 10 pos)
          (\<lambda>digit pos.
             if includeSetting = ''end'' then
               Some (Return (passphrase @ separator @ digit_toString digit) pos)
             else if includeSetting = ''anywhere'' then
               (let parts = str_split passphrase separator in
                bind (getSecureRandomIndex src (int (length parts) + 1) pos)
                  (\<lambda>p pos. Some (Return (str_join (splice_insert parts (nat p) (digit_toString digit)) separator) pos)))
             else Some (Return passphrase pos))
      else Some (Return passphrase pos))"

text \<open>
  \<open>generateAndDisplay\<close>, lines 288--375: either a validation message and nothing else,
  or the passphrase and the count that are displayed.
\<close>

datatype validation = WordCountTooSmall | EmptyWordList | NotEnoughWords

datatype display = Invalid validation | Shown string int

definition generateAndDisplay :: "page \<Rightarrow> source \<Rightarrow> nat \<Rightarrow> display result option" where
  "generateAndDisplay pg src pos =
     (let separator = separator_value pg;
          wordsForGen = getEffectiveWordList pg
      in
        case wordCount_value pg of
          None \<Rightarrow> Some (Return (Invalid WordCountTooSmall) pos)
        | Some count \<Rightarrow>
            if count < 1 then Some (Return (Invalid WordCountTooSmall) pos)
            else if length wordsForGen = 0 then Some (Return (Invalid EmptyWordList) pos)
            else if int (length wordsForGen) < count then Some (Return (Invalid NotEnoughWords) pos)
            else
              let garbleMax = garbleMax_value pg;
                  includeSetting = includeNumber_value pg
              in
                bind (generatePassphrase pg src (activeWords pg) count separator garbleMax pos)
                  (\<lambda>passphrase pos.
                bind (includeDigit src passphrase separator includeSetting pos)
                  (\<lambda>passphrase pos.
                     Some (Return
                       (Shown passphrase
                          (countPossible (length (activeWords pg)) (length wordsForGen)
                             count garbleMax includeSetting)) pos))))"


section \<open>Predicates used in the statements\<close>

text \<open>Each variant is the word with one position overwritten by a different character.\<close>

definition one_substitution :: "string \<Rightarrow> string \<Rightarrow> bool" where
  "one_substitution w v = (\<exists>i<length w. \<exists>c. c \<noteq> w ! i \<and> v = list_update w i c)"

text \<open>The 26 lowercase letters.\<close>

definition lowercase_letters :: "char set" where
  "lowercase_letters = set ''abcdefghijklmnopqrstuvwxyz''"

text \<open>
  A source given by the list of its first values (0 from then on), for evaluating the
  functions on concrete draws.
\<close>

definition draws_of :: "int list \<Rightarrow> source" where
  "draws_of ds n = (if n < length ds then word_of_int (ds ! n) else 0)"


text \<open>
  Counting from \<open>pos\<close>, the first \<open>k\<close> draws are rejected (they are \<open>\<ge> limit\<close>) and
  the next one is accepted (it is \<open>< limit\<close>).
\<close>

definition accepted_at :: "source \<Rightarrow> int \<Rightarrow> nat \<Rightarrow> nat \<Rightarrow> bool" where
  "accepted_at src limit pos k =
     ((\<forall>j<k. limit \<le> uint (src (pos + j))) \<and> uint (src (pos + k)) < limit)"

text \<open>The limit as the specification words it: \<open>floor(2^32 / bound) * bound\<close>.\<close>

definition spec_limit :: "int \<Rightarrow> int" where
  "spec_limit bound = (2 ^ 32 div bound) * bound"

text \<open>Two pages for evaluating the functions on concrete settings.\<close>

definition page_one_word :: page where
  "page_one_word =
     \<lparr>activeWords = [''cat''], wordCount_value = Some 1, separator_value = ''-'',
      includeNumber_value = ''none'', garbleMax_value = 2\<rparr>"

definition page_empty_separator :: page where
  "page_empty_separator =
     \<lparr>activeWords = [''cat'', ''dog''], wordCount_value = Some 2, separator_value = '''',
      includeNumber_value = ''anywhere'', garbleMax_value = 0\<rparr>"

section \<open>Properties of the garbling rules\<close>

lemma garble_step_one_substitution:
  assumes "\<forall>v\<in>set results. one_substitution w v"
    and "idx < length w" and "ch = w ! idx"
  shows "\<forall>v\<in>set (garble_step w results (ch, idx)). one_substitution w v"
proof -
  have "one_substitution w (list_update w idx rep)" if "rep \<noteq> ch" for rep
    unfolding one_substitution_def using assms(2,3) that by blast
  with assms(1) show ?thesis
    by (auto simp: garble_step_def set_add_def Let_def split: option.splits)
qed

lemma foldl_garble_step_one_substitution:
  assumes "\<forall>v\<in>set results. one_substitution w v"
    and "\<forall>(ch, idx)\<in>set ps. idx < length w \<and> ch = w ! idx"
  shows "\<forall>v\<in>set (foldl (garble_step w) results ps). one_substitution w v"
  using assms
proof (induction ps arbitrary: results)
  case Nil
  then show ?case by simp
next
  case (Cons p ps)
  obtain ch idx where p: "p = (ch, idx)" by (cases p)
  from Cons.prems(2) p have "idx < length w" "ch = w ! idx" by auto
  with Cons.prems(1) have "\<forall>v\<in>set (garble_step w results (ch, idx)). one_substitution w v"
    by (rule garble_step_one_substitution)
  moreover from Cons.prems(2) have "\<forall>(ch, idx)\<in>set ps. idx < length w \<and> ch = w ! idx"
    by simp
  ultimately show ?case
    using Cons.IH p by simp
qed

lemma garbledVariants_one_substitution:
  "v \<in> set (garbledVariants w) \<Longrightarrow> one_substitution w v"
proof -
  have "\<forall>(ch, idx)\<in>set (zip w [0..<length w]). idx < length w \<and> ch = w ! idx"
    by (auto simp: set_zip)
  then have "\<forall>v\<in>set (foldl (garble_step w) [] (zip w [0..<length w])). one_substitution w v"
    by (intro foldl_garble_step_one_substitution) simp_all
  then show "v \<in> set (garbledVariants w) \<Longrightarrow> one_substitution w v"
    by (simp add: garbledVariants_def)
qed

text \<open>
  Claim C10. Every string in the variant set of a word \<open>w\<close> has the length of \<open>w\<close> and
  differs from \<open>w\<close> at exactly one position: there is a position where the two differ,
  and they agree at every other position.
\<close>

theorem garbledVariants_same_length_one_diff:
  assumes "v \<in> set (garbledVariants w)"
  shows "length v = length w \<and>
         (\<exists>i<length w. v ! i \<noteq> w ! i \<and> (\<forall>j<length w. j \<noteq> i \<longrightarrow> v ! j = w ! j))"
proof -
  from assms have "one_substitution w v"
    by (rule garbledVariants_one_substitution)
  then obtain i c where i: "i < length w" and c: "c \<noteq> w ! i" and v: "v = list_update w i c"
    unfolding one_substitution_def by blast
  have "v ! i \<noteq> w ! i" using i c v by simp
  moreover have "\<forall>j<length w. j \<noteq> i \<longrightarrow> v ! j = w ! j" using v by simp
  ultimately show ?thesis using i v by auto
qed

theorem garbledVariants_same_length_one_diff_witness:
  "''kat'' \<in> set (garbledVariants ''cat'') \<and> length ''kat'' = length ''cat'' \<and>
   (\<exists>i<length ''cat''. ''kat'' ! i \<noteq> ''cat'' ! i \<and>
      (\<forall>j<length ''cat''. j \<noteq> i \<longrightarrow> ''kat'' ! j = ''cat'' ! j))"
proof -
  have h: "''kat'' \<in> set (garbledVariants ''cat'')" by code_simp
  show ?thesis
    using h garbledVariants_same_length_one_diff [OF h] by blast
qed

text \<open>
  Claim C7. The variant set of \<open>cat\<close> contains \<open>kat\<close> and does not contain \<open>cat\<close>; the
  variant set of \<open>xyz\<close> is exactly the set of \<open>zyz\<close>, \<open>xiz\<close> and \<open>xys\<close>.
\<close>

theorem garbledVariants_cat_xyz:
  "''kat'' \<in> set (garbledVariants ''cat'') \<and> ''cat'' \<notin> set (garbledVariants ''cat'') \<and>
   set (garbledVariants ''xyz'') = {''zyz'', ''xiz'', ''xys''}"
  by code_simp


subsection \<open>The substitution table\<close>

lemma dom_PHONETIC_MAP: "dom PHONETIC_MAP = lowercase_letters - {CHR ''h''}"
  unfolding PHONETIC_MAP_def dom_map_of_conv_image_fst PHONETIC_TABLE_def lowercase_letters_def
  by auto

lemma ran_PHONETIC_MAP: "ran PHONETIC_MAP = set ''epktivjygcrnmublzdows''"
proof -
  have "distinct (map fst PHONETIC_TABLE)"
    by (simp add: PHONETIC_TABLE_def)
  then have "ran PHONETIC_MAP = snd ` set PHONETIC_TABLE"
    unfolding PHONETIC_MAP_def by (rule ran_distinct)
  also have "\<dots> = set ''epktivjygcrnmublzdows''"
    by (auto simp: PHONETIC_TABLE_def)
  finally show ?thesis .
qed

lemma PHONETIC_MAP_no_fixed_point: "PHONETIC_MAP c \<noteq> Some c"
proof
  assume "PHONETIC_MAP c = Some c"
  then have "(c, c) \<in> set PHONETIC_TABLE"
    unfolding PHONETIC_MAP_def by (rule map_of_SomeD)
  then show False
    by (auto simp: PHONETIC_TABLE_def)
qed

text \<open>
  Claim C6, as stated, fails: the table is not one-to-one. The letters \<open>c\<close> and \<open>q\<close>
  are distinct and both are replaced by \<open>k\<close>.
\<close>

theorem PHONETIC_MAP_not_injective:
  "PHONETIC_MAP CHR ''c'' = Some CHR ''k'' \<and> PHONETIC_MAP CHR ''q'' = Some CHR ''k'' \<and>
   CHR ''c'' \<noteq> CHR ''q''"
  by (simp add: PHONETIC_MAP_def PHONETIC_TABLE_def)

text \<open>
  Claim C6, amended. The table maps exactly 25 of the 26 lowercase letters (every one
  but \<open>h\<close>), each to a lowercase letter other than itself; it is many-to-one: \<open>c\<close> and
  \<open>q\<close> both map to \<open>k\<close>, \<open>f\<close> and \<open>w\<close> to \<open>v\<close>, \<open>s\<close> and \<open>x\<close> to \<open>z\<close>, \<open>e\<close> and \<open>y\<close> to
  \<open>i\<close>, and the 25 mapped letters have 21 distinct replacements.
\<close>

theorem PHONETIC_MAP_shape:
  "card lowercase_letters = 26 \<and>
   dom PHONETIC_MAP = lowercase_letters - {CHR ''h''} \<and>
   card (dom PHONETIC_MAP) = 25 \<and>
   ran PHONETIC_MAP \<subseteq> lowercase_letters \<and>
   card (ran PHONETIC_MAP) = 21 \<and>
   (\<forall>c. PHONETIC_MAP c \<noteq> Some c) \<and>
   \<not> inj_on PHONETIC_MAP (dom PHONETIC_MAP) \<and>
   PHONETIC_MAP CHR ''c'' = Some CHR ''k'' \<and> PHONETIC_MAP CHR ''q'' = Some CHR ''k'' \<and>
   PHONETIC_MAP CHR ''f'' = Some CHR ''v'' \<and> PHONETIC_MAP CHR ''w'' = Some CHR ''v'' \<and>
   PHONETIC_MAP CHR ''s'' = Some CHR ''z'' \<and> PHONETIC_MAP CHR ''x'' = Some CHR ''z'' \<and>
   PHONETIC_MAP CHR ''e'' = Some CHR ''i'' \<and> PHONETIC_MAP CHR ''y'' = Some CHR ''i''"
proof -
  have 1: "card lowercase_letters = 26"
    by (simp add: lowercase_letters_def)
  have 2: "card (dom PHONETIC_MAP) = 25"
    unfolding PHONETIC_MAP_def dom_map_of_conv_image_fst PHONETIC_TABLE_def by simp
  have 3: "ran PHONETIC_MAP \<subseteq> lowercase_letters"
    unfolding ran_PHONETIC_MAP lowercase_letters_def by simp
  have 4: "card (ran PHONETIC_MAP) = 21"
    unfolding ran_PHONETIC_MAP by simp
  have "PHONETIC_MAP CHR ''c'' = PHONETIC_MAP CHR ''q''"
    by (simp add: PHONETIC_MAP_def PHONETIC_TABLE_def)
  moreover have "CHR ''c'' \<in> dom PHONETIC_MAP" "CHR ''q'' \<in> dom PHONETIC_MAP"
    by (simp_all add: dom_PHONETIC_MAP lowercase_letters_def)
  ultimately have 5: "\<not> inj_on PHONETIC_MAP (dom PHONETIC_MAP)"
    by (auto simp: inj_on_def)
  have 6: "PHONETIC_MAP CHR ''c'' = Some CHR ''k'' \<and> PHONETIC_MAP CHR ''q'' = Some CHR ''k'' \<and>
      PHONETIC_MAP CHR ''f'' = Some CHR ''v'' \<and> PHONETIC_MAP CHR ''w'' = Some CHR ''v'' \<and>
      PHONETIC_MAP CHR ''s'' = Some CHR ''z'' \<and> PHONETIC_MAP CHR ''x'' = Some CHR ''z'' \<and>
      PHONETIC_MAP CHR ''e'' = Some CHR ''i'' \<and> PHONETIC_MAP CHR ''y'' = Some CHR ''i''"
    by (simp add: PHONETIC_MAP_def PHONETIC_TABLE_def)
  from 1 2 3 4 5 6 dom_PHONETIC_MAP PHONETIC_MAP_no_fixed_point show ?thesis
    by blast
qed

subsection \<open>The sampler\<close>

lemma accepted_at_0: "uint (src pos) < limit \<Longrightarrow> accepted_at src limit pos 0"
  by (simp add: accepted_at_def)

lemma accepted_at_Suc:
  assumes "limit \<le> uint (src pos)" and "accepted_at src limit (Suc pos) k"
  shows "accepted_at src limit pos (Suc k)"
  unfolding accepted_at_def
proof (intro conjI allI impI)
  fix j assume j: "j < Suc k"
  show "limit \<le> uint (src (pos + j))"
  proof (cases j)
    case 0 with assms(1) show ?thesis by simp
  next
    case (Suc j')
    with j assms(2) show ?thesis by (simp add: accepted_at_def)
  qed
next
  from assms(2) show "uint (src (pos + Suc k)) < limit"
    by (simp add: accepted_at_def)
qed

lemma accepted_at_SucD:
  assumes "accepted_at src limit pos (Suc k)"
  shows "limit \<le> uint (src pos)" and "accepted_at src limit (Suc pos) k"
proof -
  from assms have "0 < Suc k \<longrightarrow> limit \<le> uint (src (pos + 0))"
    unfolding accepted_at_def by blast
  then show "limit \<le> uint (src pos)" by simp
  show "accepted_at src limit (Suc pos) k"
    unfolding accepted_at_def
  proof (intro conjI allI impI)
    fix j assume "j < k"
    then have "Suc j < Suc k" by simp
    with assms have "limit \<le> uint (src (pos + Suc j))"
      unfolding accepted_at_def by blast
    then show "limit \<le> uint (src (Suc pos + j))" by simp
  next
    from assms show "uint (src (Suc pos + k)) < limit"
      by (simp add: accepted_at_def)
  qed
qed

lemma draw_loop_accept:
  "accepted_at src limit pos k \<Longrightarrow>
   draw_loop src limit pos = Some (src (pos + k), Suc (pos + k))"
proof (induction k arbitrary: pos)
  case 0
  then show ?case by (subst draw_loop.simps) (simp add: accepted_at_def)
next
  case (Suc k)
  from accepted_at_SucD[OF Suc.prems]
  have rej: "limit \<le> uint (src pos)" and "accepted_at src limit (Suc pos) k" .
  then have "draw_loop src limit (Suc pos) = Some (src (Suc pos + k), Suc (Suc pos + k))"
    by (intro Suc.IH)
  with rej show ?case
    by (subst draw_loop.simps) simp
qed

lemma draw_loop_Some:
  assumes "draw_loop src limit pos = Some y"
  shows "\<exists>k. accepted_at src limit pos k \<and> y = (src (pos + k), Suc (pos + k))"
proof (rule draw_loop.raw_induct
    [where P = "\<lambda>src limit pos y. \<exists>k. accepted_at src limit pos k \<and> y = (src (pos + k), Suc (pos + k))",
      OF _ assms])
  fix f :: "source \<Rightarrow> int \<Rightarrow> nat \<Rightarrow> (32 word \<times> nat) option" and src limit pos y
  assume IH: "\<And>src limit pos y. f src limit pos = Some y \<Longrightarrow>
     \<exists>k. accepted_at src limit pos k \<and> y = (src (pos + k), Suc (pos + k))"
  assume step: "(let value = src pos in
      if limit \<le> uint value then f src limit (Suc pos) else Some (value, Suc pos)) = Some y"
  show "\<exists>k. accepted_at src limit pos k \<and> y = (src (pos + k), Suc (pos + k))"
  proof (cases "limit \<le> uint (src pos)")
    case True
    with step have "f src limit (Suc pos) = Some y" by simp
    from IH[OF this] obtain k where k: "accepted_at src limit (Suc pos) k"
      and y: "y = (src (Suc pos + k), Suc (Suc pos + k))"
      by (elim exE conjE)
    from True k have "accepted_at src limit pos (Suc k)" by (rule accepted_at_Suc)
    with y show ?thesis
      by (intro exI[of _ "Suc k"]) simp
  next
    case False
    with step have "y = (src pos, Suc pos)" by (simp add: Let_def)
    moreover from False have "accepted_at src limit pos 0" by (intro accepted_at_0) simp
    ultimately show ?thesis by (intro exI[of _ 0]) simp
  qed
qed

lemma draw_loop_never:
  assumes "\<forall>n. limit \<le> uint (src n)"
  shows "draw_loop src limit pos = None"
proof (cases "draw_loop src limit pos")
  case None
  then show ?thesis .
next
  case (Some y)
  from draw_loop_Some[OF this] obtain k where "accepted_at src limit pos k"
    by (elim exE conjE)
  then have "uint (src (pos + k)) < limit" by (simp add: accepted_at_def)
  moreover from assms have "limit \<le> uint (src (pos + k))" ..
  ultimately show ?thesis by simp
qed

text \<open>
  Claim C1, amended. For every bound \<open>> 0\<close> the sampler uses
  \<open>limit = floor((2^32 - 1) / bound) * bound\<close>, draws 32-bit values until one is below
  \<open>limit\<close> and returns that draw modulo \<open>bound\<close>: if the draw number \<open>k\<close> is the first
  below \<open>limit\<close>, the call returns it modulo \<open>bound\<close> after \<open>k + 1\<close> draws; and whatever
  the call returns is such a draw modulo \<open>bound\<close>, an integer in \<open>[0, bound)\<close>.
\<close>

theorem getSecureRandomIndex_rejection_sampling:
  assumes "0 < bound"
  shows "(\<forall>k. accepted_at src (((2 ^ 32 - 1) div bound) * bound) pos k \<longrightarrow>
            getSecureRandomIndex src bound pos =
              Some (Return (uint (src (pos + k)) mod bound) (Suc (pos + k)))) \<and>
         (\<forall>v pos'. getSecureRandomIndex src bound pos = Some (Return v pos') \<longrightarrow>
            0 \<le> v \<and> v < bound \<and>
            (\<exists>k. accepted_at src (((2 ^ 32 - 1) div bound) * bound) pos k \<and>
                 v = uint (src (pos + k)) mod bound \<and> pos' = Suc (pos + k)))"
proof (intro conjI allI impI)
  fix k
  assume "accepted_at src (((2 ^ 32 - 1) div bound) * bound) pos k"
  then have "draw_loop src ((2 ^ 32 - 1) div bound * bound) pos =
             Some (src (pos + k), Suc (pos + k))"
    by (rule draw_loop_accept)
  with assms show "getSecureRandomIndex src bound pos =
      Some (Return (uint (src (pos + k)) mod bound) (Suc (pos + k)))"
    by (simp add: getSecureRandomIndex_def)
next
  fix v pos'
  assume ret: "getSecureRandomIndex src bound pos = Some (Return v pos')"
  with assms obtain y where y: "draw_loop src ((2 ^ 32 - 1) div bound * bound) pos = Some y"
    and v: "v = uint (fst y) mod bound" and p: "pos' = snd y"
    by (auto simp: getSecureRandomIndex_def split: option.splits)
  from draw_loop_Some[OF y] obtain k where
    k: "accepted_at src (((2 ^ 32 - 1) div bound) * bound) pos k"
       "y = (src (pos + k), Suc (pos + k))"
    by (elim exE conjE)
  from v assms show "0 \<le> v" by simp
  from v assms show "v < bound" by simp
  from k v p show "\<exists>k. accepted_at src (((2 ^ 32 - 1) div bound) * bound) pos k \<and>
                 v = uint (src (pos + k)) mod bound \<and> pos' = Suc (pos + k)"
    by (intro exI[of _ k]) simp
qed

theorem getSecureRandomIndex_rejection_sampling_witness:
  "0 < (10::int) \<and>
   accepted_at (draws_of [4294967290, 37]) (((2 ^ 32 - 1) div 10) * 10) 0 1 \<and>
   getSecureRandomIndex (draws_of [4294967290, 37]) 10 0 = Some (Return 7 2)"
proof -
  have b: "0 < (10::int)" by simp
  have acc: "accepted_at (draws_of [4294967290, 37]) (((2 ^ 32 - 1) div 10) * 10) 0 1"
    by (simp add: accepted_at_def draws_of_def)
  from getSecureRandomIndex_rejection_sampling[OF b, of "draws_of [4294967290, 37]" 0] acc
  have "getSecureRandomIndex (draws_of [4294967290, 37]) 10 0 =
        Some (Return (uint (draws_of [4294967290, 37] (0 + 1)) mod 10) (Suc (0 + 1)))"
    by blast
  then have "getSecureRandomIndex (draws_of [4294967290, 37]) 10 0 = Some (Return 7 2)"
    by (simp add: draws_of_def)
  with b acc show ?thesis by blast
qed

text \<open>
  Claim C1, as stated, fails: with \<open>bound = 2\<close> the draw \<open>4294967295\<close> is below
  \<open>floor(2^32 / 2) * 2\<close>, so it would be accepted and give \<open>1\<close>; the sampler rejects
  it, draws again and returns \<open>6 mod 2 = 0\<close>.
\<close>

theorem getSecureRandomIndex_limit_counterexample:
  "0 < (2::int) \<and>
   uint (draws_of [4294967295, 6] 0) < spec_limit 2 \<and>
   uint (draws_of [4294967295, 6] 0) mod 2 = 1 \<and>
   getSecureRandomIndex (draws_of [4294967295, 6]) 2 0 = Some (Return 0 2)"
  by code_simp

text \<open>
  Claim C9. The sampler throws (\<open>RangeError\<close>, and returns no value) if and only if the
  bound is \<open>\<le> 0\<close>; a call that returns a value had a bound \<open>> 0\<close>.
\<close>

theorem getSecureRandomIndex_error_iff:
  "(getSecureRandomIndex src bound pos = Some (Throw RangeError)) = (bound \<le> 0) \<and>
   ((\<exists>e. getSecureRandomIndex src bound pos = Some (Throw e)) = (bound \<le> 0)) \<and>
   ((\<exists>v pos'. getSecureRandomIndex src bound pos = Some (Return v pos')) \<longrightarrow> 0 < bound)"
  by (auto simp: getSecureRandomIndex_def Let_def split: option.splits)

theorem getSecureRandomIndex_error_iff_witness:
  "getSecureRandomIndex (draws_of [5]) 0 0 = Some (Throw RangeError) \<and>
   getSecureRandomIndex (draws_of [5]) (- 3) 0 = Some (Throw RangeError) \<and>
   getSecureRandomIndex (draws_of [5]) 10 0 = Some (Return 5 1) \<and> 0 < (10::int)"
proof -
  have r: "getSecureRandomIndex (draws_of [5]) 10 0 = Some (Return 5 1)"
    by code_simp
  from getSecureRandomIndex_error_iff[of "draws_of [5]" 0 0]
  have a: "getSecureRandomIndex (draws_of [5]) 0 0 = Some (Throw RangeError)" by simp
  from getSecureRandomIndex_error_iff[of "draws_of [5]" "- 3" 0]
  have b: "getSecureRandomIndex (draws_of [5]) (- 3) 0 = Some (Throw RangeError)" by simp
  from getSecureRandomIndex_error_iff[of "draws_of [5]" 10 0] r
  have c: "0 < (10::int)" by blast
  from a b c r show ?thesis by blast
qed

lemma sampler_limit_zero:
  fixes bound :: int
  assumes "2 ^ 32 \<le> bound"
  shows "((2 ^ 32 - 1) div bound) * bound = 0"
proof -
  from assms have "(2 ^ 32 - 1) div bound = 0"
    by (intro div_pos_pos_trivial) simp_all
  then show ?thesis by simp
qed

lemma sampler_limit_half:
  fixes bound :: int
  assumes "0 < bound" and "bound < 2 ^ 32"
  shows "2 ^ 31 \<le> ((2 ^ 32 - 1) div bound) * bound"
proof (cases "bound \<le> 2 ^ 31")
  case True
  have "(2 ^ 32 - 1) mod bound < bound" using assms(1) by simp
  moreover have "((2 ^ 32 - 1) div bound) * bound = (2 ^ 32 - 1) - (2 ^ 32 - 1) mod bound"
    by (simp only: minus_mod_eq_div_mult[symmetric])
  ultimately show ?thesis using True by simp
next
  case False
  with assms(2) have "(2 ^ 32 - 1) div bound = 1"
    by (intro int_div_pos_eq[where r = "2 ^ 32 - 1 - bound"]) simp_all
  with False show ?thesis by simp
qed

text \<open>
  A bound of \<open>2^32\<close> or more makes the limit 0: every draw is rejected and the call
  never returns.
\<close>

theorem getSecureRandomIndex_large_bound:
  assumes "2 ^ 32 \<le> bound"
  shows "getSecureRandomIndex src bound pos = None"
proof -
  have "draw_loop src 0 pos = None"
    by (rule draw_loop_never) simp
  with assms sampler_limit_zero[OF assms] show ?thesis
    by (simp add: getSecureRandomIndex_def)
qed

theorem getSecureRandomIndex_large_bound_witness:
  "(2::int) ^ 32 \<le> 4294967296 \<and> getSecureRandomIndex (draws_of [5]) 4294967296 0 = None"
proof -
  have h: "(2::int) ^ 32 \<le> 4294967296" by simp
  from h getSecureRandomIndex_large_bound[OF h] show ?thesis by blast
qed

text \<open>
  For a bound below \<open>2^32\<close> the limit is at least \<open>2^31\<close>, so at least half of the
  32-bit values are accepted: a draw below \<open>2^31\<close> is returned, modulo the bound, at
  once.
\<close>

theorem getSecureRandomIndex_accepts_small_draw:
  assumes "0 < bound" and "bound < 2 ^ 32" and "uint (src pos) < 2 ^ 31"
  shows "getSecureRandomIndex src bound pos = Some (Return (uint (src pos) mod bound) (Suc pos))"
proof -
  from sampler_limit_half[OF assms(1,2)] assms(3)
  have "uint (src pos) < ((2 ^ 32 - 1) div bound) * bound" by linarith
  then have "accepted_at src (((2 ^ 32 - 1) div bound) * bound) pos 0"
    by (rule accepted_at_0)
  from draw_loop_accept[OF this] assms(1) show ?thesis
    by (simp add: getSecureRandomIndex_def)
qed

theorem getSecureRandomIndex_accepts_small_draw_witness:
  "(0::int) < 10 \<and> (10::int) < 2 ^ 32 \<and> uint (draws_of [37] 0) < 2 ^ 31 \<and>
   getSecureRandomIndex (draws_of [37]) 10 0 = Some (Return 7 1)"
proof -
  have a: "(0::int) < 10" and b: "(10::int) < 2 ^ 32" by simp_all
  have c: "uint (draws_of [37] 0) < 2 ^ 31" by (simp add: draws_of_def)
  from getSecureRandomIndex_accepts_small_draw[of 10 "draws_of [37]" 0, OF a b c]
  have "getSecureRandomIndex (draws_of [37]) 10 0 = Some (Return 7 1)"
    by (simp add: draws_of_def)
  with a b c show ?thesis by blast
qed

subsection \<open>The binomial coefficient and the count\<close>

lemma bigint_div_nonneg: "0 \<le> a \<Longrightarrow> 0 < b \<Longrightarrow> bigint_div a b = a div b"
  by (cases "a = 0") (simp_all add: bigint_div_def)

lemma binomialBig_exact_loop_step:
  assumes "1 \<le> i" and "k \<le> n" and "i \<le> k"
  shows "bigint_div (int (nat (n - k + i - 1) choose nat (i - 1)) * (n - k + i)) i =
         int (nat (n - k + (i + 1) - 1) choose nat ((i + 1) - 1))"
proof -
  define a where "a = nat (n - k + i - 1)"
  define j where "j = nat (i - 1)"
  from assms have nk: "n - k + i = int (Suc a)" and i: "i = int (Suc j)"
    by (simp_all add: a_def j_def)
  have "int (a choose j) * int (Suc a) = int (Suc a * (a choose j))"
    by (simp only: of_nat_mult mult.commute)
  also have "\<dots> = int ((Suc a choose Suc j) * Suc j)"
    by (simp only: Suc_times_binomial_eq)
  finally have "int (a choose j) * int (Suc a) = int (Suc a choose Suc j) * int (Suc j)"
    by (simp only: of_nat_mult)
  then have "bigint_div (int (a choose j) * int (Suc a)) (int (Suc j)) = int (Suc a choose Suc j)"
    by (simp add: bigint_div_nonneg)
  then have step: "bigint_div (int (a choose j) * (n - k + i)) i = int (Suc a choose Suc j)"
    by (simp only: nk[symmetric] i[symmetric])
  from assms have S: "nat (n - k + (i + 1) - 1) = Suc a" "nat ((i + 1) - 1) = Suc j"
    by (simp_all add: a_def j_def)
  from step show ?thesis
    unfolding S a_def[symmetric] j_def[symmetric] .
qed

lemma binomialBig_exact_loop_correct:
  "k \<le> n \<Longrightarrow> 1 \<le> i \<Longrightarrow> i \<le> k + 1 \<Longrightarrow>
   res = int (nat (n - k + i - 1) choose nat (i - 1)) \<Longrightarrow>
   binomialBig_exact_loop n k i res = int (nat n choose nat k)"
proof (induction n k i res rule: binomialBig_exact_loop.induct)
  case (1 n k i res)
  show ?case
  proof (cases "i \<le> k")
    case True
    have "binomialBig_exact_loop n k (i + 1) (bigint_div (res * (n - k + i)) i) =
          int (nat n choose nat k)"
    proof (rule "1.IH"[OF True])
      show "k \<le> n" by fact
      show "1 \<le> i + 1" using "1.prems"(2) by simp
      show "i + 1 \<le> k + 1" using True by simp
      show "bigint_div (res * (n - k + i)) i =
            int (nat (n - k + (i + 1) - 1) choose nat (i + 1 - 1))"
        unfolding "1.prems"(4) using "1.prems"(2,1) True by (rule binomialBig_exact_loop_step)
    qed
    with True show ?thesis
      by (subst binomialBig_exact_loop.simps) simp
  next
    case False
    with "1.prems"(3) have "i = k + 1" by simp
    with "1.prems"(4) have "res = int (nat n choose nat k)" by simp
    with False show ?thesis
      by (subst binomialBig_exact_loop.simps) simp
  qed
qed

lemma binomialBig_exact_in_range:
  assumes "0 \<le> k" and "k \<le> n"
  shows "binomialBig_exact n k = int (nat n choose nat k)"
proof -
  define k' where "k' = min k (n - k)"
  have k': "0 \<le> k'" "k' \<le> n" using assms by (simp_all add: k'_def)
  have "binomialBig_exact_loop n k' 1 1 = int (nat n choose nat k')"
    using k' by (intro binomialBig_exact_loop_correct) simp_all
  also have "nat n choose nat k' = nat n choose nat k"
  proof (cases "k \<le> n - k")
    case True
    then show ?thesis by (simp add: k'_def)
  next
    case False
    then have "k' = n - k" by (simp add: k'_def)
    then have "nat k' = nat n - nat k" using assms by simp
    moreover have "nat k \<le> nat n" using assms by simp
    ultimately show ?thesis by (simp add: binomial_symmetric[symmetric])
  qed
  finally show ?thesis
    using assms by (simp add: binomialBig_exact_def k'_def Let_def)
qed

lemma possible_loop_sum:
  "possible_loop Bn Vn count maxG k possible =
     possible + (\<Sum>j\<in>{k..maxG}. binomialBig_exact count j * (Vn ^ nat j) * (Bn ^ nat (count - j)))"
proof (induction Bn Vn count maxG k possible rule: possible_loop.induct)
  case (1 Bn Vn count maxG k possible)
  show ?case
  proof (cases "k \<le> maxG")
    case True
    then have split: "{k..maxG} = insert k {k + 1..maxG}" by auto
    have notin: "k \<notin> {k + 1..maxG}" by simp
    have "possible_loop Bn Vn count maxG k possible =
          possible_loop Bn Vn count maxG (k + 1)
            (possible + binomialBig_exact count k * (Vn ^ nat k) * (Bn ^ nat (count - k)))"
      using True by (simp only: possible_loop.simps[of Bn Vn count maxG k possible] Let_def if_True)
    also have "\<dots> = possible + binomialBig_exact count k * (Vn ^ nat k) * (Bn ^ nat (count - k)) +
          (\<Sum>j\<in>{k + 1..maxG}. binomialBig_exact count j * (Vn ^ nat j) * (Bn ^ nat (count - j)))"
      by (rule "1.IH"[OF True refl refl])
    also have "\<dots> = possible +
          (\<Sum>j\<in>{k..maxG}. binomialBig_exact count j * (Vn ^ nat j) * (Bn ^ nat (count - j)))"
      unfolding split using notin by (subst sum.insert) simp_all
    finally show ?thesis .
  next
    case False
    then show ?thesis
      by (subst possible_loop.simps) simp
  qed
qed

lemma possible_loop_binomial_sum:
  assumes "0 \<le> maxG" and "maxG \<le> count"
  shows "possible_loop Bn Vn count maxG 0 0 =
     (\<Sum>k = 0..nat maxG. int (nat count choose k) * Vn ^ k * Bn ^ (nat count - k))"
proof -
  have "possible_loop Bn Vn count maxG 0 0 =
        (\<Sum>j\<in>{0..maxG}. binomialBig_exact count j * (Vn ^ nat j) * (Bn ^ nat (count - j)))"
    by (simp add: possible_loop_sum)
  also have "\<dots> = (\<Sum>j\<in>{0..maxG}. int (nat count choose nat j) * Vn ^ nat j * Bn ^ (nat count - nat j))"
  proof (rule sum.cong)
    fix j assume "j \<in> {0..maxG}"
    with assms have j: "0 \<le> j" "j \<le> count" by simp_all
    then have "nat (count - j) = nat count - nat j" by simp
    with j show "binomialBig_exact count j * (Vn ^ nat j) * (Bn ^ nat (count - j)) =
          int (nat count choose nat j) * Vn ^ nat j * Bn ^ (nat count - nat j)"
      by (simp add: binomialBig_exact_in_range)
  qed simp
  also have "\<dots> = (\<Sum>k\<in>{0..nat maxG}. int (nat count choose k) * Vn ^ k * Bn ^ (nat count - k))"
  proof (rule sum.reindex_bij_witness[where i = int and j = nat])
    fix a assume "a \<in> {0..nat maxG}"
    then show "nat (int a) = a" "int a \<in> {0..maxG}" using assms by simp_all
  next
    fix b assume "b \<in> {0..maxG}"
    then show "int (nat b) = b" "nat b \<in> {0..nat maxG}" by (simp_all add: nat_mono)
  qed simp
  finally show ?thesis .
qed



subsection \<open>Strength in bits\<close>

lemma bit_length_bounds:
  "0 < n \<Longrightarrow> 2 ^ (bit_length n - 1) \<le> n \<and> n < 2 ^ bit_length n"
proof (induction n rule: bit_length.induct)
  case (1 n)
  show ?case
  proof (cases "n = 1")
    case True
    have "bit_length 1 = Suc (bit_length 0)"
      by (subst bit_length.simps) simp
    also have "bit_length 0 = 0"
      by (subst bit_length.simps) simp
    finally show ?thesis using True by simp
  next
    case False
    with "1.prems" have n2: "0 < n div 2" by simp
    from "1.prems" have pos: "\<not> n \<le> 0" by simp
    from "1.IH"[OF pos n2]
    have IH: "2 ^ (bit_length (n div 2) - 1) \<le> n div 2" "n div 2 < 2 ^ bit_length (n div 2)"
      by simp_all
    have bl: "bit_length n = Suc (bit_length (n div 2))"
      using pos by (subst bit_length.simps) simp
    have pos2: "0 < bit_length (n div 2)"
      using n2 by (subst bit_length.simps) simp
    then have "(2::int) ^ bit_length (n div 2) = 2 * 2 ^ (bit_length (n div 2) - 1)"
      by (cases "bit_length (n div 2)") simp_all
    with IH(1) have "2 ^ bit_length (n div 2) \<le> 2 * (n div 2)" by simp
    also have "\<dots> \<le> n" by simp
    finally have lo: "2 ^ (bit_length n - 1) \<le> n" by (simp add: bl)
    from IH(2) have "n div 2 + 1 \<le> 2 ^ bit_length (n div 2)" by simp
    then have "2 * (n div 2) + 2 \<le> 2 * 2 ^ bit_length (n div 2)" by simp
    moreover have "n < 2 * (n div 2) + 2" by presburger
    ultimately have hi: "n < 2 ^ bit_length n" by (simp add: bl)
    from lo hi show ?thesis ..
  qed
qed

lemma quotient_bounds:
  fixes q r P A :: int
  assumes "0 < P" and "0 \<le> r" and "r < P"
  shows "A * P \<le> q * P + r \<Longrightarrow> A \<le> q" and "q * P + r < A * P \<Longrightarrow> q < A"
proof -
  assume "A * P \<le> q * P + r"
  with assms(3) have "A * P < (q + 1) * P" by (simp add: algebra_simps)
  with assms(1) have "A < q + 1" by (simp only: mult_less_cancel_right_pos)
  then show "A \<le> q" by simp
next
  assume "q * P + r < A * P"
  with assms(2) have "q * P < A * P" by simp
  with assms(1) show "q < A" by (simp only: mult_less_cancel_right_pos)
qed

text \<open>Rounding a number of \<open>53 + e\<close> bits (\<open>e > 0\<close>) to 53 significant bits.\<close>

lemma nearest_double_parts:
  assumes "0 < n" and e: "e = bit_length n - 53" and "0 < e"
  defines "q \<equiv> n div 2 ^ e" and "r \<equiv> n mod 2 ^ e"
  shows "nearest_double n = (if r > 2 ^ (e - 1) \<or> (r = 2 ^ (e - 1) \<and> odd q) then q + 1 else q) * 2 ^ e"
    and "n = q * 2 ^ e + r" and "0 \<le> r" and "r < 2 ^ e"
    and "2 ^ 52 \<le> q" and "q < 2 ^ 53"
    and "(2::int) ^ e = 2 * 2 ^ (e - 1)"
proof -
  show "nearest_double n = (if r > 2 ^ (e - 1) \<or> (r = 2 ^ (e - 1) \<and> odd q) then q + 1 else q) * 2 ^ e"
    using assms(3) unfolding nearest_double_def e[symmetric] q_def r_def Let_def by simp
  show n: "n = q * 2 ^ e + r" by (simp only: q_def r_def div_mult_mod_eq)
  show r0: "0 \<le> r" by (simp add: r_def)
  show r1: "r < 2 ^ e" by (simp add: r_def)
  from assms(3) e have b: "bit_length n = e + 53" by simp
  from bit_length_bounds[OF assms(1)] b
  have lo: "2 ^ (52 + e) \<le> n" and hi: "n < 2 ^ (e + 53)" by simp_all
  have P: "(0::int) < 2 ^ e" by simp
  from lo have "2 ^ 52 * 2 ^ e \<le> q * 2 ^ e + r"
    unfolding power_add n[symmetric] .
  with P r0 r1 show "2 ^ 52 \<le> q" by (rule quotient_bounds(1))
  from hi have "q * 2 ^ e + r < 2 ^ 53 * 2 ^ e"
    unfolding power_add n[symmetric] by (simp only: mult.commute)
  with P r0 r1 show "q < 2 ^ 53" by (rule quotient_bounds(2))
  from assms(3) show "(2::int) ^ e = 2 * 2 ^ (e - 1)"
    by (cases e) simp_all
qed

lemma nearest_double_small:
  assumes "0 < n" and "bit_length n \<le> 53"
  shows "nearest_double n = n" and "n < 2 ^ 53"
proof -
  from assms(2) show "nearest_double n = n"
    by (simp add: nearest_double_def)
  from bit_length_bounds[OF assms(1)] have "n < 2 ^ bit_length n" ..
  also from assms(2) have "(2::int) ^ bit_length n \<le> 2 ^ 53"
    by (intro power_increasing) simp_all
  finally show "n < 2 ^ 53" .
qed

lemma round_overflow_core:
  fixes q r H M :: int
  assumes "0 < H" and "0 \<le> r" and "r < 2 * H" and "q < M" and "even M"
  shows "(M * (2 * H) \<le> (if r > H \<or> (r = H \<and> odd q) then q + 1 else q) * (2 * H)) \<longleftrightarrow>
         ((M - 1) * (2 * H) + H \<le> q * (2 * H) + r)"
proof (cases "q = M - 1")
  case True
  with assms(5) have oddq: "odd q" by simp
  have P: "0 < 2 * H" using assms(1) by simp
  show ?thesis
  proof (cases "H \<le> r")
    case True
    with oddq have "(if r > H \<or> (r = H \<and> odd q) then q + 1 else q) = M"
      using \<open>q = M - 1\<close> by auto
    with True \<open>q = M - 1\<close> show ?thesis by simp
  next
    case False
    then have "(if r > H \<or> (r = H \<and> odd q) then q + 1 else q) = M - 1"
      using \<open>q = M - 1\<close> by auto
    moreover have "(M - 1) * (2 * H) < M * (2 * H)"
      using assms(1) by (simp add: algebra_simps)
    ultimately show ?thesis using False \<open>q = M - 1\<close> by simp
  qed
next
  case False
  with assms(4) have q: "q + 1 \<le> M - 1" by simp
  have P: "0 \<le> 2 * H" using assms(1) by simp
  from q P have le: "(q + 1) * (2 * H) \<le> (M - 1) * (2 * H)"
    by (rule mult_right_mono)
  have "(if r > H \<or> (r = H \<and> odd q) then q + 1 else q) \<le> q + 1" by simp
  then have "(if r > H \<or> (r = H \<and> odd q) then q + 1 else q) * (2 * H) \<le> (q + 1) * (2 * H)"
    using P by (rule mult_right_mono)
  also note le
  also have "(M - 1) * (2 * H) < M * (2 * H)"
    using assms(1) by (simp add: algebra_simps)
  finally have lhs: "\<not> M * (2 * H) \<le> (if r > H \<or> (r = H \<and> odd q) then q + 1 else q) * (2 * H)"
    by simp
  have "q * (2 * H) + r < (q + 1) * (2 * H)"
    using assms(3) by (simp add: algebra_simps)
  also note le
  also have "(M - 1) * (2 * H) < (M - 1) * (2 * H) + H"
    using assms(1) by simp
  finally have rhs: "\<not> (M - 1) * (2 * H) + H \<le> q * (2 * H) + r"
    by simp
  from lhs rhs show ?thesis by simp
qed

lemma nearest_double_between:
  assumes "0 < n" and e: "e = bit_length n - 53" and "0 < e"
  shows "2 ^ (52 + e) \<le> nearest_double n" and "nearest_double n \<le> 2 ^ (53 + e)"
    and "\<bar>nearest_double n - n\<bar> \<le> 2 ^ (e - 1)" and "2 ^ (52 + e) \<le> n"
proof -
  from assms(3) e have "bit_length n - 1 = 52 + e" by simp
  with bit_length_bounds[OF assms(1)] show "2 ^ (52 + e) \<le> n" by simp
  define q where "q = n div 2 ^ e"
  define r where "r = n mod 2 ^ e"
  define q' where "q' = (if r > 2 ^ (e - 1) \<or> (r = 2 ^ (e - 1) \<and> odd q) then q + 1 else q)"
  note parts = nearest_double_parts[OF assms, folded q_def r_def]
  from parts(1) have nd: "nearest_double n = q' * 2 ^ e" by (simp only: q'_def)
  have P: "(0::int) \<le> 2 ^ e" by simp
  have "q \<le> q'" "q' \<le> q + 1" by (simp_all add: q'_def)
  with parts(5,6) have q'lo: "2 ^ 52 \<le> q'" and q'hi: "q' \<le> 2 ^ 53" by simp_all
  from q'lo P have "2 ^ 52 * 2 ^ e \<le> q' * 2 ^ e" by (rule mult_right_mono)
  then show "2 ^ (52 + e) \<le> nearest_double n" by (simp only: nd power_add)
  from q'hi P have "q' * 2 ^ e \<le> 2 ^ 53 * 2 ^ e" by (rule mult_right_mono)
  then show "nearest_double n \<le> 2 ^ (53 + e)" by (simp only: nd power_add)
  show "\<bar>nearest_double n - n\<bar> \<le> 2 ^ (e - 1)"
  proof (cases "r > 2 ^ (e - 1) \<or> (r = 2 ^ (e - 1) \<and> odd q)")
    case True
    then have "q' = q + 1" by (simp add: q'_def)
    then have "nearest_double n - n = 2 ^ e - r"
      unfolding nd by (subst parts(2)) (simp add: algebra_simps)
    moreover from True have "2 ^ (e - 1) \<le> r" by auto
    ultimately show ?thesis using parts(4,7) by simp
  next
    case False
    then have "q' = q" by (simp add: q'_def)
    then have "nearest_double n - n = - r"
      unfolding nd by (subst parts(2)) simp
    moreover from False have "r \<le> 2 ^ (e - 1)" by auto
    ultimately show ?thesis using parts(3) by simp
  qed
qed

lemma nearest_double_overflow_iff:
  assumes "0 < n"
  shows "2 ^ 1024 \<le> nearest_double n \<longleftrightarrow> 2 ^ 1024 - 2 ^ 970 \<le> n"
proof -
  define b where "b = bit_length n"
  from bit_length_bounds[OF assms] have lo: "2 ^ (b - 1) \<le> n" and hi: "n < 2 ^ b"
    by (simp_all add: b_def)
  have thr: "(2::int) ^ 1023 < 2 ^ 1024 - 2 ^ 970" by simp
  consider "b \<le> 53" | "54 \<le> b" "b \<le> 1023" | "b = 1024" | "1025 \<le> b" by linarith
  then show ?thesis
  proof cases
    case 1
    then have "nearest_double n = n" "n < 2 ^ 53"
      using nearest_double_small[OF assms] by (simp_all add: b_def)
    then show ?thesis by simp
  next
    case 2
    define e where "e = b - 53"
    with 2 have e: "e = bit_length n - 53" "0 < e" "53 + e = b" by (simp_all add: b_def)
    from nearest_double_between(2)[OF assms e(1,2)] e(3)
    have "nearest_double n \<le> 2 ^ b" by simp
    also from 2 have "(2::int) ^ b \<le> 2 ^ 1023" by (intro power_increasing) simp_all
    finally have "nearest_double n \<le> 2 ^ 1023" .
    moreover from 2 have "(2::int) ^ b \<le> 2 ^ 1023" by (intro power_increasing) simp_all
    with hi have "n < 2 ^ 1023" by simp
    ultimately show ?thesis using thr by simp
  next
    case 3
    then have e: "971 = bit_length n - 53" "0 < (971::nat)" by (simp_all add: b_def)
    define q where "q = n div 2 ^ 971"
    define r where "r = n mod 2 ^ 971"
    note parts = nearest_double_parts[OF assms e, folded q_def r_def]
    have core: "(2 ^ 53 * (2 * 2 ^ 970) \<le>
            (if r > 2 ^ 970 \<or> (r = 2 ^ 970 \<and> odd q) then q + 1 else q) * (2 * 2 ^ 970)) \<longleftrightarrow>
          ((2 ^ 53 - 1) * (2 * 2 ^ 970) + 2 ^ 970 \<le> q * (2 * 2 ^ 970) + r)"
    proof (rule round_overflow_core)
      show "(0::int) < 2 ^ 970" by simp
      show "0 \<le> r" by (rule parts(3))
      show "r < 2 * 2 ^ 970" using parts(4) by simp
      show "q < 2 ^ 53" by (rule parts(6))
      show "even ((2::int) ^ 53)" by simp
    qed
    have A: "(2::int) ^ 53 * (2 * 2 ^ 970) = 2 ^ 1024" by simp
    have B: "((2::int) ^ 53 - 1) * (2 * 2 ^ 970) + 2 ^ 970 = 2 ^ 1024 - 2 ^ 970" by simp
    have C: "(2::int) * 2 ^ 970 = 2 ^ 971" by simp
    have nd: "nearest_double n =
        (if r > 2 ^ 970 \<or> (r = 2 ^ 970 \<and> odd q) then q + 1 else q) * (2 * 2 ^ 970)"
      using parts(1) by (simp only: C) simp
    have n: "n = q * (2 * 2 ^ 970) + r"
      using parts(2) by (simp only: C)
    from core show ?thesis
      unfolding A B nd[symmetric] n[symmetric] .
  next
    case 4
    define e where "e = b - 53"
    with 4 have e: "e = bit_length n - 53" "0 < e" "1024 \<le> 52 + e" "1024 \<le> b - 1"
      by (simp_all add: b_def)
    from e(3) have "(2::int) ^ 1024 \<le> 2 ^ (52 + e)" by (intro power_increasing) simp_all
    also note nearest_double_between(1)[OF assms e(1,2)]
    finally have "2 ^ 1024 \<le> nearest_double n" .
    moreover from e(4) have "(2::int) ^ 1024 \<le> 2 ^ (b - 1)" by (intro power_increasing) simp_all
    with lo have "2 ^ 1024 \<le> n" by simp
    ultimately show ?thesis by simp
  qed
qed

lemma nearest_double_accuracy:
  assumes "0 < n"
  shows "0 < nearest_double n" and "\<bar>nearest_double n - n\<bar> * 2 ^ 53 \<le> n"
proof -
  define e where "e = bit_length n - 53"
  have "0 < nearest_double n \<and> \<bar>nearest_double n - n\<bar> * 2 ^ 53 \<le> n"
  proof (cases "e = 0")
    case True
    then have "nearest_double n = n"
      by (simp add: nearest_double_def e_def)
    with assms show ?thesis by simp
  next
    case False
    then have e: "0 < e" by simp
    note b = nearest_double_between[OF assms e_def e]
    have "(0::int) < 2 ^ (52 + e)" by simp
    with b(1) have pos: "0 < nearest_double n" by linarith
    have "\<bar>nearest_double n - n\<bar> * 2 ^ 53 \<le> 2 ^ (e - 1) * 2 ^ 53"
      using b(3) by (rule mult_right_mono) simp
    also have "\<dots> = 2 ^ (52 + e)"
      using e by (cases e) (simp_all add: power_add)
    also note b(4)
    finally show ?thesis using pos by simp
  qed
  then show "0 < nearest_double n" and "\<bar>nearest_double n - n\<bar> * 2 ^ 53 \<le> n"
    by simp_all
qed

lemma Number_positive:
  assumes "0 < n"
  shows "Number n = (if 2 ^ 1024 - 2 ^ 970 \<le> n then PosInfinity
                     else Finite (of_int (nearest_double n)))"
  using assms nearest_double_overflow_iff[OF assms] by (simp add: Number_def Let_def)

text \<open>
  Claim C4, amended. For every \<open>exactCount \<ge> 1\<close> the reported strength is \<open>Math.log2\<close>
  of the count converted to a double. Below \<open>2^1024 - 2^970\<close> the conversion rounds
  the count to 53 significant bits (a relative error of at most \<open>2^-53\<close>) and the
  strength is finite; from \<open>2^1024 - 2^970\<close> on the conversion gives \<open>Infinity\<close>, and
  so is the strength.
\<close>

theorem strength_finite_iff:
  assumes "1 \<le> exactCount"
  shows "(exactCount < 2 ^ 1024 - 2 ^ 970 \<longrightarrow>
            strength lg exactCount = Math_log2 lg (Finite (of_int (nearest_double exactCount))) \<and>
            (\<exists>x. strength lg exactCount = Finite x) \<and>
            \<bar>nearest_double exactCount - exactCount\<bar> * 2 ^ 53 \<le> exactCount) \<and>
         (2 ^ 1024 - 2 ^ 970 \<le> exactCount \<longrightarrow> strength lg exactCount = PosInfinity)"
proof (intro conjI impI)
  from assms have pos: "0 < exactCount" by simp
  note acc = nearest_double_accuracy[OF pos]
  {
    assume "exactCount < 2 ^ 1024 - 2 ^ 970"
    then show eq: "strength lg exactCount =
        Math_log2 lg (Finite (of_int (nearest_double exactCount)))"
      by (simp add: strength_def Number_positive[OF pos])
    from acc(1) have "(0::real) < of_int (nearest_double exactCount)" by simp
    then show "\<exists>x. strength lg exactCount = Finite x"
      unfolding eq by (simp add: Math_log2_def)
    show "\<bar>nearest_double exactCount - exactCount\<bar> * 2 ^ 53 \<le> exactCount"
      by (rule acc(2))
  }
  {
    assume "2 ^ 1024 - 2 ^ 970 \<le> exactCount"
    then show "strength lg exactCount = PosInfinity"
      by (simp add: strength_def Number_positive[OF pos] Math_log2_def)
  }
qed

theorem strength_finite_iff_witness:
  "(1::int) \<le> 81 \<and> (81::int) < 2 ^ 1024 - 2 ^ 970 \<and>
   strength (log 2) 81 = Finite (log 2 81) \<and>
   (1::int) \<le> 2 ^ 1024 \<and> (2::int) ^ 1024 - 2 ^ 970 \<le> 2 ^ 1024 \<and>
   strength (log 2) (2 ^ 1024) = PosInfinity"
proof -
  have a: "(1::int) \<le> 81" and b: "(81::int) < 2 ^ 1024 - 2 ^ 970" by simp_all
  have c: "(1::int) \<le> 2 ^ 1024" and d: "(2::int) ^ 1024 - 2 ^ 970 \<le> 2 ^ 1024" by simp_all
  have nd: "nearest_double 81 = 81" by code_simp
  from strength_finite_iff[OF a, of "log 2"] b
  have "strength (log 2) 81 = Math_log2 (log 2) (Finite (of_int (nearest_double 81)))"
    by blast
  then have e: "strength (log 2) 81 = Finite (log 2 81)"
    by (simp add: nd Math_log2_def)
  from strength_finite_iff[OF c, of "log 2"] d
  have f: "strength (log 2) (2 ^ 1024) = PosInfinity"
    by blast
  from a b c d e f show ?thesis by blast
qed

lemma countPossible_no_garble_no_digit:
  assumes "1 \<le> count"
  shows "countPossible B B count 0 ''none'' = int B ^ nat count"
proof -
  from assms have "possible_loop (int B) 0 count 0 0 0 =
        (\<Sum>k = 0..nat 0. int (nat count choose k) * 0 ^ k * int B ^ (nat count - k))"
    by (intro possible_loop_binomial_sum) simp_all
  then have "possible_loop (int B) 0 count 0 0 0 = int B ^ nat count" by simp
  with assms show ?thesis
    by (simp add: countPossible_def Let_def)
qed

lemma long_list_count_big: "(2::int) ^ 1024 - 2 ^ 970 \<le> 11746 ^ 76"
proof -
  have "(2::int) ^ 1024 - 2 ^ 970 \<le> 2 ^ 1024" by simp
  also have "(2::int) ^ 1024 \<le> 2 ^ (27 * 38)" by (rule power_increasing) simp_all
  also have "(2::int) ^ (27 * 38) = (2 ^ 27) ^ 38" by (rule power_mult)
  also have "((2::int) ^ 27) ^ 38 \<le> (11746 ^ 2) ^ 38" by (rule power_mono) simp_all
  also have "((11746::int) ^ 2) ^ 38 = 11746 ^ (2 * 38)" by (rule power_mult[symmetric])
  also have "(11746::int) ^ (2 * 38) = 11746 ^ 76" by (rule arg_cong[where f = "\<lambda>k. 11746 ^ k"]) simp
  finally show ?thesis .
qed

text \<open>
  Claim C4, as stated, fails: with the 11746 words of the long list, 76 words, no
  garbling and no digit, the count is \<open>11746^76\<close> and the reported strength is
  \<open>Infinity\<close>, not a finite number of bits.
\<close>

theorem strength_overflow_counterexample:
  "(1::int) \<le> 11746 ^ 76 \<and>
   countPossible 11746 11746 76 0 ''none'' = 11746 ^ 76 \<and>
   strength (log 2) (11746 ^ 76) = PosInfinity"
proof (intro conjI)
  have "(1::int) \<le> 11746" by simp
  then show one: "(1::int) \<le> 11746 ^ 76" by (rule one_le_power)
  have "countPossible 11746 11746 76 0 ''none'' = int 11746 ^ nat 76"
    by (rule countPossible_no_garble_no_digit) simp
  then show "countPossible 11746 11746 76 0 ''none'' = 11746 ^ 76"
    by (simp only: of_nat_numeral nat_numeral)
  from one have pos: "(0::int) < 11746 ^ 76" by (rule less_le_trans[OF zero_less_one])
  have "Number (11746 ^ 76) = PosInfinity"
    using long_list_count_big by (simp only: Number_positive[OF pos] if_True)
  then show "strength (log 2) (11746 ^ 76) = PosInfinity"
    by (simp only: strength_def Math_log2_def number.case)
qed

subsection \<open>The binomial coefficient in double arithmetic\<close>

lemma nearest_double_exact:
  assumes "0 \<le> x" and "x \<le> 2 ^ 53"
  shows "nearest_double x = x"
proof -
  consider "x = 0" | "0 < x" "x < 2 ^ 53" | "x = 2 ^ 53" using assms by linarith
  then show ?thesis
  proof cases
    case 1
    have "bit_length 0 = 0" by (subst bit_length.simps) simp
    with 1 show ?thesis by (simp add: nearest_double_def)
  next
    case 2
    from bit_length_bounds[OF 2(1)] 2(2) have "(2::int) ^ (bit_length x - 1) < 2 ^ 53" by simp
    then have "bit_length x - 1 < 53" by (rule power_less_imp_less_exp[rotated]) simp
    then have "bit_length x \<le> 53" by simp
    with 2(1) show ?thesis by (rule nearest_double_small(1))
  next
    case 3
    have "nearest_double 9007199254740992 = 9007199254740992" by code_simp
    with 3 show ?thesis by simp
  qed
qed

lemma double_round_exact:
  assumes "0 \<le> x" and "x \<le> 2 ^ 53"
  shows "double_round x = x"
proof (cases "x = 0")
  case True
  with nearest_double_exact[of 0] show ?thesis by (simp add: double_round_def)
next
  case False
  with assms(1) have "0 < x" by simp
  with nearest_double_exact[OF assms] show ?thesis by (simp add: double_round_def)
qed

lemma binomialBig_loop_exact:
  assumes "k \<le> n" and "n \<le> 2 ^ 53" and "k < 2 ^ 53"
  shows "1 \<le> i \<Longrightarrow> binomialBig_loop n k i res = Some (binomialBig_exact_loop n k i res)"
proof (induction "nat (k + 1 - i)" arbitrary: i res)
  case 0
  then have "\<not> i \<le> k" by simp
  then show ?case
    by (subst binomialBig_loop.simps, subst binomialBig_exact_loop.simps) simp
next
  case (Suc m)
  then have le: "i \<le> k" and m: "m = nat (k + 1 - (i + 1))" by simp_all
  from Suc.prems le assms have r1: "double_round (i + 1) = i + 1"
    by (intro double_round_exact) simp_all
  from Suc.prems le assms have r2: "double_round (n - k) = n - k"
    by (intro double_round_exact) simp_all
  from Suc.prems le assms have r3: "double_round (n - k + i) = n - k + i"
    by (intro double_round_exact) simp_all
  from Suc.prems have "1 \<le> i + 1" by simp
  from Suc.hyps(1)[OF m this]
  have "binomialBig_loop n k (i + 1) (bigint_div (res * (n - k + i)) i) =
        Some (binomialBig_exact_loop n k (i + 1) (bigint_div (res * (n - k + i)) i))" .
  with le show ?case
    by (subst binomialBig_loop.simps, subst binomialBig_exact_loop.simps) (simp add: r1 r2 r3)
qed

lemma binomialBig_exact_eq:
  assumes "0 \<le> n" and "n \<le> 2 ^ 53"
  shows "binomialBig n k = Some (binomialBig_exact n k)"
proof (cases "k < 0 \<or> k > n")
  case True
  then show ?thesis by (simp add: binomialBig_def binomialBig_exact_def)
next
  case False
  then have k: "0 \<le> k" "k \<le> n" by simp_all
  with assms have r: "double_round (n - k) = n - k"
    by (intro double_round_exact) simp_all
  define k' where "k' = min k (n - k)"
  from k assms have "k' \<le> n" "k' < 2 ^ 53" by (simp_all add: k'_def)
  then have "binomialBig_loop n k' 1 1 = Some (binomialBig_exact_loop n k' 1 1)"
    using assms(2) by (intro binomialBig_loop_exact) simp_all
  with False show ?thesis
    by (simp add: binomialBig_def binomialBig_exact_def r k'_def Let_def)
qed

lemma binomialBig_exact_choose:
  assumes "0 \<le> n"
  shows "binomialBig_exact n k = (if k < 0 \<or> n < k then 0 else int (nat n choose nat k))"
  by (simp add: binomialBig_exact_in_range) (simp add: binomialBig_exact_def)

text \<open>
  Claim C8, amended. For all integers \<open>n\<close> from 0 to \<open>2^53\<close> and all integers \<open>k\<close>,
  \<open>binomialBig n k\<close> returns exactly the binomial coefficient: 0 when \<open>k < 0\<close> or
  \<open>k > n\<close>, and \<open>n\<close> choose \<open>k\<close> otherwise; in particular 1 for \<open>k = 0\<close> and for \<open>k = n\<close>.
\<close>

theorem binomialBig_correct:
  assumes "0 \<le> n" and "n \<le> 2 ^ 53"
  shows "binomialBig n k = Some (if k < 0 \<or> n < k then 0 else int (nat n choose nat k)) \<and>
         binomialBig n 0 = Some 1 \<and> binomialBig n n = Some 1"
proof -
  have "binomialBig n k = Some (if k < 0 \<or> n < k then 0 else int (nat n choose nat k))"
    by (simp only: binomialBig_exact_eq[OF assms] binomialBig_exact_choose[OF assms(1)])
  moreover have "binomialBig n 0 = Some 1" "binomialBig n n = Some 1"
    using assms(1)
    by (simp_all add: binomialBig_exact_eq[OF assms] binomialBig_exact_choose[OF assms(1)])
  ultimately show ?thesis by simp
qed

theorem binomialBig_correct_witness:
  "(0::int) \<le> 10 \<and> (10::int) \<le> 2 ^ 53 \<and> binomialBig 10 3 = Some 120 \<and>
   binomialBig 10 (- 1) = Some 0 \<and> binomialBig 10 11 = Some 0 \<and>
   binomialBig 10 0 = Some 1 \<and> binomialBig 10 10 = Some 1"
proof -
  have h: "(0::int) \<le> 10" and b: "(10::int) \<le> 2 ^ 53" by simp_all
  have c: "(10::nat) choose 3 = 120" by code_simp
  from binomialBig_correct[OF h b, of 3] c have "binomialBig 10 3 = Some 120" by simp
  moreover from binomialBig_correct[OF h b, of "- 1"] have "binomialBig 10 (- 1) = Some 0" by simp
  moreover from binomialBig_correct[OF h b, of 11] have "binomialBig 10 11 = Some 0" by simp
  moreover from binomialBig_correct[OF h b, of 0]
  have "binomialBig 10 0 = Some 1" "binomialBig 10 10 = Some 1"
    by simp_all
  ultimately show ?thesis using h b by simp
qed

text \<open>
  Claim C8, as stated, fails beyond \<open>2^53\<close>: \<open>n = 2^53 + 2\<close> is an integer that a double
  holds exactly, and \<open>n\<close> choose 1 is \<open>n\<close>; but \<open>n - 1\<close> and then \<open>(n - 1) + 1\<close> are
  rounded to \<open>2^53\<close>, which is what \<open>binomialBig\<close> returns.
\<close>

theorem binomialBig_rounding_counterexample:
  "(0::int) \<le> 9007199254740994 \<and>
   double_round 9007199254740994 = 9007199254740994 \<and>
   binomialBig 9007199254740994 1 = Some 9007199254740992 \<and>
   int (nat 9007199254740994 choose nat 1) = 9007199254740994"
proof -
  have "double_round 9007199254740994 = 9007199254740994" by code_simp
  moreover have "binomialBig 9007199254740994 1 = Some 9007199254740992" by code_simp
  moreover have "int (nat 9007199254740994 choose nat 1) = 9007199254740994" by simp
  ultimately show ?thesis by simp
qed

subsection \<open>Passphrase generation\<close>

lemma getSecureRandomIndex_range:
  assumes "getSecureRandomIndex src mx pos = Some (Return v pos')"
  shows "0 \<le> v \<and> v < mx"
proof -
  from assms have mx: "0 < mx"
    by (auto simp: getSecureRandomIndex_def split: if_splits)
  with assms show ?thesis
    by (auto simp: getSecureRandomIndex_def split: option.splits)
qed

lemma bind_Return:
  "bind m f = Some (Return v pos') \<longleftrightarrow>
     (\<exists>u p. m = Some (Return u p) \<and> f u p = Some (Return v pos'))"
  by (auto simp: bind_def split: option.splits result.splits)

lemma pick_loop_Return:
  "pick_loop src words i n picked pos = Some (Return r pos') \<Longrightarrow>
   \<exists>new. r = picked @ new \<and> length new = nat (n - i) \<and> set new \<subseteq> set words"
proof (induction src words i n picked pos rule: pick_loop.induct)
  case (1 src words i n picked pos)
  show ?case
  proof (cases "i < n")
    case True
    with "1.prems" obtain idx p where
      idx: "getSecureRandomIndex src (int (length words)) pos = Some (Return idx p)" and
      rest: "pick_loop src words (i + 1) n (picked @ [words ! nat idx]) p = Some (Return r pos')"
      by (subst (asm) pick_loop.simps) (auto split: option.splits result.splits)
    from "1.IH"[OF True idx refl rest] obtain new where
      new: "r = (picked @ [words ! nat idx]) @ new" "length new = nat (n - (i + 1))"
        "set new \<subseteq> set words"
      by (elim exE conjE)
    from getSecureRandomIndex_range[OF idx] have "nat idx < length words"
      by (simp add: nat_less_iff)
    then have "words ! nat idx \<in> set words" by simp
    with new True show ?thesis
      by (intro exI[of _ "words ! nat idx # new"]) simp
  next
    case False
    with "1.prems" have "r = picked"
      by (subst (asm) pick_loop.simps) simp
    with False show ?thesis by simp
  qed
qed

lemma foldl_set_add:
  "set (foldl set_add acc xs) = set acc \<union> set xs"
  "distinct acc \<Longrightarrow> distinct (foldl set_add acc xs)"
  by (induction xs arbitrary: acc) (auto simp: set_add_def)

lemma foldl_variants:
  "set (foldl (\<lambda>set1 w. foldl set_add set1 (garbledVariants w)) acc ws) =
     set acc \<union> (\<Union>w\<in>set ws. set (garbledVariants w))"
  "distinct acc \<Longrightarrow> distinct (foldl (\<lambda>set1 w. foldl set_add set1 (garbledVariants w)) acc ws)"
  by (induction ws arbitrary: acc) (auto simp: foldl_set_add)

text \<open>
  The effective word list: the base list itself when no garbling is asked for;
  otherwise the base words and all their variants, each once.
\<close>

theorem getEffectiveWordList_set:
  "(garbleMax_value pg \<le> 0 \<longrightarrow> getEffectiveWordList pg = activeWords pg) \<and>
   (0 < garbleMax_value pg \<longrightarrow>
      set (getEffectiveWordList pg) =
        set (activeWords pg) \<union> (\<Union>w\<in>set (activeWords pg). set (garbledVariants w)) \<and>
      distinct (getEffectiveWordList pg))"
  by (simp add: getEffectiveWordList_def Let_def foldl_variants foldl_set_add)

theorem getEffectiveWordList_set_witness:
  "garbleMax_value page_empty_separator \<le> 0 \<and>
   getEffectiveWordList page_empty_separator = [''cat'', ''dog''] \<and>
   0 < garbleMax_value page_one_word \<and>
   set (getEffectiveWordList page_one_word) = {''cat'', ''kat'', ''cet'', ''cad''} \<and>
   distinct (getEffectiveWordList page_one_word)"
proof -
  have a: "garbleMax_value page_empty_separator \<le> 0" by (simp add: page_empty_separator_def)
  have b: "0 < garbleMax_value page_one_word" by (simp add: page_one_word_def)
  have v: "set (garbledVariants ''cat'') = {''kat'', ''cet'', ''cad''}" by code_simp
  from getEffectiveWordList_set[of page_empty_separator] a
  have c: "getEffectiveWordList page_empty_separator = [''cat'', ''dog'']"
    by (simp add: page_empty_separator_def)
  from getEffectiveWordList_set[of page_one_word] b
  have d: "set (getEffectiveWordList page_one_word) = {''cat'', ''kat'', ''cet'', ''cad''}"
    and e: "distinct (getEffectiveWordList page_one_word)"
    by (auto simp: page_one_word_def v)
  from a b c d e show ?thesis by blast
qed

lemma swap_props:
  assumes "i < length xs" and "j < length xs"
  shows "length (swap xs i j) = length xs" and "set (swap xs i j) = set xs"
  using assms by (simp_all add: swap_def set_swap)

lemma shuffle_loop_Return:
  "shuffle_loop src i picked pos = Some (Return r pos') \<Longrightarrow> i < int (length picked) \<Longrightarrow>
   length r = length picked \<and> set r = set picked"
proof (induction src i picked pos rule: shuffle_loop.induct)
  case (1 src i picked pos)
  show ?case
  proof (cases "i > 0")
    case True
    with "1.prems"(1) obtain j p where
      j: "getSecureRandomIndex src (i + 1) pos = Some (Return j p)" and
      rest: "shuffle_loop src (i - 1) (swap picked (nat i) (nat j)) p = Some (Return r pos')"
      by (subst (asm) shuffle_loop.simps) (auto split: option.splits result.splits)
    from getSecureRandomIndex_range[OF j] "1.prems"(2) True
    have ij: "nat i < length picked" "nat j < length picked"
      by (simp_all add: nat_less_iff)
    then have sw: "length (swap picked (nat i) (nat j)) = length picked"
      "set (swap picked (nat i) (nat j)) = set picked"
      by (rule swap_props)+
    have "length r = length (swap picked (nat i) (nat j)) \<and>
          set r = set (swap picked (nat i) (nat j))"
      using "1.prems"(2) sw(1) by (intro "1.IH"[OF True j refl rest]) simp
    with sw show ?thesis by simp
  next
    case False
    with "1.prems"(1) have "r = picked"
      by (subst (asm) shuffle_loop.simps) simp
    then show ?thesis by simp
  qed
qed

text \<open>
  The words of a passphrase: for \<open>garbleMax \<ge> 0\<close>, whatever \<open>generatePassphrase\<close>
  returns is the join of capitalized words, which are \<open>garbleMax\<close> words of the
  effective list and \<open>count - garbleMax\<close> words (none if that is negative) of the
  base list, shuffled: \<open>max garbleMax count\<close> words in all, and \<open>count\<close> words exactly
  when \<open>garbleMax \<le> count\<close>.
\<close>

theorem generatePassphrase_word_count:
  assumes "0 \<le> garbleMax"
    and "generatePassphrase pg src baseWords count separator garbleMax pos = Some (Return s pos')"
  shows "\<exists>garbled base picked.
           length garbled = nat garbleMax \<and> set garbled \<subseteq> set (getEffectiveWordList pg) \<and>
           length base = nat (count - garbleMax) \<and> set base \<subseteq> set baseWords \<and>
           set picked = set (garbled @ base) \<and>
           length picked = length (garbled @ base) \<and>
           length picked = nat (max garbleMax count) \<and>
           s = str_join (map capitalize picked) separator"
proof -
  from assms(2) obtain p1 q1 p2 q2 p3 q3 where
    first: "(if garbleMax > 0 then pick_loop src (getEffectiveWordList pg) 0 garbleMax [] pos
             else Some (Return [] pos)) = Some (Return p1 q1)" and
    second: "pick_loop src baseWords garbleMax count p1 q1 = Some (Return p2 q2)" and
    third: "shuffle_loop src (int (length p2) - 1) p2 q2 = Some (Return p3 q3)" and
    s: "s = str_join (map capitalize p3) separator"
    unfolding generatePassphrase_def Let_def bind_Return by auto
  have p1: "length p1 = nat garbleMax \<and> set p1 \<subseteq> set (getEffectiveWordList pg)"
  proof (cases "garbleMax > 0")
    case True
    with first have "pick_loop src (getEffectiveWordList pg) 0 garbleMax [] pos = Some (Return p1 q1)"
      by simp
    from pick_loop_Return[OF this] show ?thesis by auto
  next
    case False
    with first assms(1) show ?thesis by simp
  qed
  from pick_loop_Return[OF second] obtain new where
    new: "p2 = p1 @ new" "length new = nat (count - garbleMax)" "set new \<subseteq> set baseWords"
    by (elim exE conjE)
  have m: "length p3 = length p2 \<and> set p3 = set p2"
    using third by (rule shuffle_loop_Return) simp
  with p1 new assms(1) have len: "length p3 = nat (max garbleMax count)" by auto
  from p1 new m len s show ?thesis
    by (intro exI[of _ p1] exI[of _ new] exI[of _ p3]) simp
qed

theorem generatePassphrase_word_count_witness:
  "(0::int) \<le> 2 \<and>
   generatePassphrase page_one_word (draws_of [1, 0, 1]) [''cat''] 1 ''-'' 2 0 =
     Some (Return ''Kat-Cat'' 3) \<and>
   (\<exists>garbled base picked.
      length garbled = nat 2 \<and> set garbled \<subseteq> set (getEffectiveWordList page_one_word) \<and>
      length base = nat (1 - 2) \<and> set base \<subseteq> set [''cat''] \<and>
      set picked = set (garbled @ base) \<and>
      length picked = length (garbled @ base) \<and>
      length picked = nat (max 2 1) \<and>
      ''Kat-Cat'' = str_join (map capitalize picked) ''-'')"
proof -
  have a: "(0::int) \<le> 2" by simp
  have b: "generatePassphrase page_one_word (draws_of [1, 0, 1]) [''cat''] 1 ''-'' 2 0 =
     Some (Return ''Kat-Cat'' 3)"
    by code_simp
  from a b generatePassphrase_word_count[OF a b] show ?thesis by blast
qed

lemma getSecureRandomIndex_first_draw:
  assumes "\<forall>n. uint (src n) < 2 ^ 31" and "0 < bound" and "bound < 2 ^ 32"
  shows "getSecureRandomIndex src bound pos = Some (Return (uint (src pos) mod bound) (Suc pos))"
proof -
  from assms(1) have "uint (src pos) < 2 ^ 31" ..
  with sampler_limit_half[OF assms(2,3)]
  have "uint (src pos) < ((2 ^ 32 - 1) div bound) * bound" by linarith
  then have "accepted_at src (((2 ^ 32 - 1) div bound) * bound) pos 0"
    by (rule accepted_at_0)
  from draw_loop_accept[OF this] assms(2) show ?thesis
    by (simp add: getSecureRandomIndex_def)
qed

lemma pick_loop_total:
  assumes "\<forall>n. uint (src n) < 2 ^ 31" and "words \<noteq> []" and "int (length words) < 2 ^ 32"
  shows "\<exists>r. pick_loop src words i n picked pos = Some (Return r (pos + nat (n - i)))"
proof (induction "nat (n - i)" arbitrary: i picked pos)
  case 0
  then have "\<not> i < n" by simp
  then have "pick_loop src words i n picked pos = Some (Return picked pos)"
    by (subst pick_loop.simps) simp
  with 0 show ?case by simp
next
  case (Suc m)
  then have lt: "i < n" and m: "m = nat (n - (i + 1))" by simp_all
  from assms(2) have "0 < int (length words)" by simp
  from getSecureRandomIndex_first_draw[OF assms(1) this assms(3)]
  have draw: "getSecureRandomIndex src (int (length words)) pos =
      Some (Return (uint (src pos) mod int (length words)) (Suc pos))" .
  from Suc.hyps(1)[OF m] obtain r where
    "pick_loop src words (i + 1) n
       (picked @ [words ! nat (uint (src pos) mod int (length words))]) (Suc pos) =
     Some (Return r (Suc pos + nat (n - (i + 1))))"
    by blast
  with lt draw have "pick_loop src words i n picked pos =
      Some (Return r (Suc pos + nat (n - (i + 1))))"
    by (subst pick_loop.simps) simp
  moreover from lt have "Suc pos + nat (n - (i + 1)) = pos + nat (n - i)" by simp
  ultimately show ?case by simp
qed

lemma shuffle_loop_total:
  assumes "\<forall>n. uint (src n) < 2 ^ 31" and "i + 1 < 2 ^ 32"
  shows "\<exists>r. shuffle_loop src i picked pos = Some (Return r (pos + nat i))"
  using assms(2)
proof (induction "nat i" arbitrary: i picked pos)
  case 0
  then have "\<not> i > 0" by simp
  then have "shuffle_loop src i picked pos = Some (Return picked pos)"
    by (subst shuffle_loop.simps) simp
  with 0 show ?case by simp
next
  case (Suc m)
  then have pos: "0 < i" and m: "m = nat (i - 1)" and small: "i - 1 + 1 < 2 ^ 32" by simp_all
  from pos have "0 < i + 1" by simp
  from getSecureRandomIndex_first_draw[OF assms(1) this Suc.prems]
  have draw: "getSecureRandomIndex src (i + 1) pos =
      Some (Return (uint (src pos) mod (i + 1)) (Suc pos))" .
  from Suc.hyps(1)[OF m small] obtain r where
    "shuffle_loop src (i - 1) (swap picked (nat i) (nat (uint (src pos) mod (i + 1)))) (Suc pos) =
     Some (Return r (Suc pos + nat (i - 1)))"
    by blast
  with pos draw have "shuffle_loop src i picked pos = Some (Return r (Suc pos + nat (i - 1)))"
    by (subst shuffle_loop.simps) simp
  moreover from pos have "Suc pos + nat (i - 1) = pos + nat i" by simp
  ultimately show ?case by simp
qed

text \<open>
  \<open>generatePassphrase\<close> returns a passphrase when every draw is below \<open>2^31\<close> (so that
  no draw is rejected), \<open>garbleMax \<ge> 0\<close>, the lists that are picked from are not empty
  and the lengths are below \<open>2^32\<close>.
\<close>

theorem generatePassphrase_returns:
  assumes "\<forall>n. uint (src n) < 2 ^ 31"
    and "0 \<le> garbleMax" and "max garbleMax count < 2 ^ 32"
    and "0 < garbleMax \<longrightarrow>
           getEffectiveWordList pg \<noteq> [] \<and> int (length (getEffectiveWordList pg)) < 2 ^ 32"
    and "garbleMax < count \<longrightarrow> baseWords \<noteq> [] \<and> int (length baseWords) < 2 ^ 32"
  shows "\<exists>s pos'. generatePassphrase pg src baseWords count separator garbleMax pos =
           Some (Return s pos')"
proof -
  have "\<exists>p1 q1. (if garbleMax > 0 then pick_loop src (getEffectiveWordList pg) 0 garbleMax [] pos
             else Some (Return [] pos)) = Some (Return p1 q1) \<and> length p1 = nat garbleMax"
  proof (cases "garbleMax > 0")
    case True
    with assms(4) have ne: "getEffectiveWordList pg \<noteq> []"
        "int (length (getEffectiveWordList pg)) < 2 ^ 32" by simp_all
    from pick_loop_total[OF assms(1) ne] obtain r where
      r: "pick_loop src (getEffectiveWordList pg) 0 garbleMax [] pos =
          Some (Return r (pos + nat (garbleMax - 0)))" by blast
    from pick_loop_Return[OF r] have "length r = nat garbleMax" by auto
    with True r show ?thesis by simp
  next
    case False
    with assms(2) show ?thesis by simp
  qed
  then obtain p1 q1 where
    first: "(if garbleMax > 0 then pick_loop src (getEffectiveWordList pg) 0 garbleMax [] pos
             else Some (Return [] pos)) = Some (Return p1 q1)" and
    len1: "length p1 = nat garbleMax" by blast
  have "\<exists>p2 q2. pick_loop src baseWords garbleMax count p1 q1 = Some (Return p2 q2)"
  proof (cases "garbleMax < count")
    case True
    with assms(5) have ne: "baseWords \<noteq> []" "int (length baseWords) < 2 ^ 32" by simp_all
    from pick_loop_total[OF assms(1) ne] show ?thesis by blast
  next
    case False
    then have "pick_loop src baseWords garbleMax count p1 q1 = Some (Return p1 q1)"
      by (subst pick_loop.simps) simp
    then show ?thesis by blast
  qed
  then obtain p2 q2 where
    second: "pick_loop src baseWords garbleMax count p1 q1 = Some (Return p2 q2)" by blast
  from pick_loop_Return[OF second] len1 assms(2)
  have "int (length p2) = max garbleMax count" by auto
  with assms(3) have "int (length p2) - 1 + 1 < 2 ^ 32" by simp
  from shuffle_loop_total[OF assms(1) this] obtain p3 q3 where
    third: "shuffle_loop src (int (length p2) - 1) p2 q2 = Some (Return p3 q3)" by blast
  from first second third show ?thesis
    unfolding generatePassphrase_def Let_def bind_Return by blast
qed

theorem generatePassphrase_returns_witness:
  "(\<forall>n. uint (draws_of [1, 0, 1] n) < 2 ^ 31) \<and> (0::int) \<le> 0 \<and> max 0 2 < (2::int) ^ 32 \<and>
   [''cat'', ''dog''] \<noteq> [] \<and> int (length [''cat'', ''dog'']) < 2 ^ 32 \<and>
   (\<exists>s pos'. generatePassphrase page_empty_separator (draws_of [1, 0, 1]) [''cat'', ''dog''] 2 ''-'' 0 0 =
      Some (Return s pos'))"
proof -
  have a: "\<forall>n. uint (draws_of [1, 0, 1] n) < 2 ^ 31"
  proof
    fix n :: nat
    consider "n = 0" | "n = 1" | "n = 2" | "3 \<le> n" by linarith
    then show "uint (draws_of [1, 0, 1] n) < 2 ^ 31"
      by cases (simp_all add: draws_of_def)
  qed
  have b: "(0::int) \<le> 0" and c: "max 0 2 < (2::int) ^ 32" by simp_all
  have d: "0 < (0::int) \<longrightarrow> getEffectiveWordList page_empty_separator \<noteq> [] \<and>
      int (length (getEffectiveWordList page_empty_separator)) < 2 ^ 32" by simp
  have e: "[''cat'', ''dog''] \<noteq> []" "int (length [''cat'', ''dog'']) < 2 ^ 32" by simp_all
  then have f: "(0::int) < 2 \<longrightarrow> [''cat'', ''dog''] \<noteq> [] \<and> int (length [''cat'', ''dog'']) < 2 ^ 32"
    by simp
  from generatePassphrase_returns[OF a b c d f, of "''-''" 0] a b c e show ?thesis by blast
qed

text \<open>
  Claim C3 at a failing input: one base word, \<open>count = 1\<close> and \<open>garbleMax = 2\<close>. No
  clamping takes place: two words are picked from the effective list and the
  passphrase has two words, while the count displayed beside it (4) is that of the
  one-word passphrases.
\<close>

theorem generatePassphrase_unclamped:
  "generatePassphrase page_one_word (draws_of [1, 0, 1]) [''cat''] 1 ''-'' 2 0 =
     Some (Return ''Kat-Cat'' 3) \<and>
   generateAndDisplay page_one_word (draws_of [1, 0, 1]) 0 =
     Some (Return (Shown ''Kat-Cat'' 4) 3)"
  by code_simp

lemma split_from_word:
  assumes "separator \<noteq> []" and "hd separator \<notin> set w"
  shows "split_from separator cur (w @ rest) = split_from separator (cur @ w) rest"
  using assms(2)
proof (induction w arbitrary: cur)
  case Nil
  then show ?case by simp
next
  case (Cons c w)
  from assms(1) obtain s ss where sep: "separator = s # ss" by (cases separator) auto
  with Cons.prems have "s \<noteq> c" by auto
  with sep have "take (length separator) (c # w @ rest) \<noteq> separator" by auto
  moreover from Cons.prems have "hd separator \<notin> set w" by simp
  then have "split_from separator ((cur @ [c]) @ w) rest = split_from separator (cur @ [c]) (w @ rest)"
    by (rule Cons.IH[symmetric])
  ultimately show ?case by simp
qed

lemma split_from_separator:
  assumes "separator \<noteq> []"
  shows "split_from separator cur (separator @ rest) = cur # split_from separator [] rest"
proof -
  from assms obtain s ss where sep: "separator = s # ss" by (cases separator) auto
  then show ?thesis by simp
qed

lemma split_from_join:
  assumes "separator \<noteq> []" and "\<forall>w\<in>set (v # ws). hd separator \<notin> set w"
  shows "split_from separator cur (str_join (v # ws) separator) = (cur @ v) # ws"
  using assms(2)
proof (induction ws arbitrary: v cur)
  case Nil
  then have "split_from separator cur (v @ []) = split_from separator (cur @ v) []"
    by (intro split_from_word[OF assms(1)]) simp
  then show ?case by simp
next
  case (Cons u ws)
  from Cons.prems have v: "hd separator \<notin> set v" and rest: "\<forall>w\<in>set (u # ws). hd separator \<notin> set w"
    by simp_all
  have "split_from separator cur (str_join (v # u # ws) separator) =
        split_from separator cur (v @ separator @ str_join (u # ws) separator)"
    by simp
  also have "\<dots> = split_from separator (cur @ v) (separator @ str_join (u # ws) separator)"
    by (rule split_from_word[OF assms(1) v])
  also have "\<dots> = (cur @ v) # split_from separator [] (str_join (u # ws) separator)"
    by (rule split_from_separator[OF assms(1)])
  also have "split_from separator [] (str_join (u # ws) separator) = ([] @ u) # ws"
    by (rule Cons.IH[OF rest])
  finally show ?case by simp
qed

text \<open>
  Splitting a joined phrase gives the words back when the separator is not empty and
  its first character occurs in none of the words.
\<close>

theorem str_split_join:
  assumes "separator \<noteq> []" and "ws \<noteq> []" and "\<forall>w\<in>set ws. hd separator \<notin> set w"
  shows "str_split (str_join ws separator) separator = ws"
proof -
  from assms(2) obtain v vs where ws: "ws = v # vs" by (cases ws) auto
  with assms(3) have "split_from separator [] (str_join (v # vs) separator) = ([] @ v) # vs"
    by (intro split_from_join[OF assms(1)]) simp
  with assms(1) ws show ?thesis by (simp add: str_split_def)
qed

theorem str_split_join_witness:
  "''-'' \<noteq> [] \<and> [''Dog'', ''Cat''] \<noteq> [] \<and>
   (hd ''-'' \<notin> set ''Dog'' \<and> hd ''-'' \<notin> set ''Cat'') \<and>
   str_split (str_join [''Dog'', ''Cat''] ''-'') ''-'' = [''Dog'', ''Cat'']"
proof -
  have a: "''-'' \<noteq> []" and b: "[''Dog'', ''Cat''] \<noteq> []" by simp_all
  have c: "\<forall>w\<in>set [''Dog'', ''Cat'']. hd ''-'' \<notin> set w" by simp
  from str_split_join[OF a b c] c show ?thesis by simp
qed

text \<open>
  The digit "anywhere", for such a separator: the result is the words with one
  digit \<open>0..9\<close> inserted as a token of its own at one of the \<open>length ws + 1\<close>
  positions, joined with the separator.
\<close>

theorem includeDigit_anywhere_words:
  assumes "separator \<noteq> []" and "ws \<noteq> []" and "\<forall>w\<in>set ws. hd separator \<notin> set w"
    and "includeDigit src (str_join ws separator) separator ''anywhere'' pos = Some (Return s pos')"
  shows "\<exists>digit p. 0 \<le> digit \<and> digit < 10 \<and> p \<le> length ws \<and>
           s = str_join (take p ws @ [digit_toString digit] @ drop p ws) separator"
proof -
  have parts: "str_split (str_join ws separator) separator = ws"
  proof -
    from assms(2) obtain v vs where ws: "ws = v # vs" by (cases ws) auto
    with assms(3) have "split_from separator [] (str_join (v # vs) separator) = ([] @ v) # vs"
      by (intro split_from_join[OF assms(1)]) simp
    with assms(1) ws show ?thesis by (simp add: str_split_def)
  qed
  from assms(4) obtain digit q1 p q2 where
    digit: "getSecureRandomIndex src 10 pos = Some (Return digit q1)" and
    p: "getSecureRandomIndex src (int (length ws) + 1) q1 = Some (Return p q2)" and
    s: "s = str_join (splice_insert ws (nat p) (digit_toString digit)) separator"
    by (auto simp: includeDigit_def Let_def bind_Return parts)
  from getSecureRandomIndex_range[OF digit] have "0 \<le> digit" "digit < 10" by simp_all
  moreover from getSecureRandomIndex_range[OF p] have "nat p \<le> length ws"
    by (simp add: nat_le_iff)
  ultimately show ?thesis
    using s unfolding splice_insert_def by blast
qed

theorem includeDigit_anywhere_words_witness:
  "''-'' \<noteq> [] \<and> [''Dog'', ''Cat''] \<noteq> [] \<and>
   (hd ''-'' \<notin> set ''Dog'' \<and> hd ''-'' \<notin> set ''Cat'') \<and>
   includeDigit (draws_of [7, 1]) (str_join [''Dog'', ''Cat''] ''-'') ''-'' ''anywhere'' 0 =
     Some (Return ''Dog-7-Cat'' 2) \<and>
   (\<exists>digit p. 0 \<le> digit \<and> digit < 10 \<and> p \<le> length [''Dog'', ''Cat''] \<and>
      ''Dog-7-Cat'' =
        str_join (take p [''Dog'', ''Cat''] @ [digit_toString digit] @ drop p [''Dog'', ''Cat'']) ''-'')"
proof -
  have a: "''-'' \<noteq> []" and b: "[''Dog'', ''Cat''] \<noteq> []" by simp_all
  have c: "\<forall>w\<in>set [''Dog'', ''Cat'']. hd ''-'' \<notin> set w" by simp
  have d: "includeDigit (draws_of [7, 1]) (str_join [''Dog'', ''Cat''] ''-'') ''-'' ''anywhere'' 0 =
     Some (Return ''Dog-7-Cat'' 2)"
    by code_simp
  from includeDigit_anywhere_words[OF a b c d] a b c d show ?thesis by simp
qed

text \<open>
  Claim C5 at a failing input: two words and the empty separator. Splitting the
  joined phrase \<open>DogCat\<close> on the separator gives its six characters, the position is
  drawn among seven slots, and the digit lands inside a word. A separator that occurs
  inside a word has the same effect: the two words \<open>Well-known\<close> and \<open>Cat\<close> joined
  with \<open>-\<close> split into three parts.
\<close>

theorem includeDigit_empty_separator:
  "generatePassphrase page_empty_separator (draws_of [0, 1, 0, 7, 1]) [''cat'', ''dog''] 2 '''' 0 0 =
     Some (Return ''DogCat'' 3) \<and>
   str_split ''DogCat'' '''' = [''D'', ''o'', ''g'', ''C'', ''a'', ''t''] \<and>
   str_split (str_join [''Well-known'', ''Cat''] ''-'') ''-'' = [''Well'', ''known'', ''Cat''] \<and>
   includeDigit (draws_of [0, 1, 0, 7, 1]) ''DogCat'' '''' ''anywhere'' 3 =
     Some (Return ''D7ogCat'' 5) \<and>
   generateAndDisplay page_empty_separator (draws_of [0, 1, 0, 7, 1]) 0 =
     Some (Return (Shown ''D7ogCat'' 120) 5)"
  by code_simp


end
